theory Spec2Isabelle
  imports Main
begin

section \<open>Data model\<close>

text \<open>
  The service keeps one table, \<open>Contact\<close>, and exposes one operation,
  \<open>identifyContact\<close> (src/services/identify.ts). A row of the table is a record; the
  column \<open>id\<close> is called \<open>id_of\<close> here since \<open>id\<close> is the identity function of HOL.
  A JavaScript \<open>Date\<close> is compared through its number of milliseconds, so
  \<open>createdAt\<close> is an integer. Strings are lists of characters; the model of
  \<open>toLowerCase\<close> and of the white space class covers ASCII text.
\<close>

datatype LinkPrecedence = primary | secondary

record Contact =
  id_of :: int
  email :: "string option"
  phoneNumber :: "string option"
  linkPrecedence :: LinkPrecedence
  linkedId :: "int option"
  createdAt :: int
  deletedAt :: "int option"

text \<open>
  The request type \<open>IdentifyRequest\<close>: both fields are optional strings. The fields carry
  the suffix \<open>_in\<close> to keep them apart from the columns of the same name.
\<close>

record IdentifyRequest =
  email_in :: "string option"
  phoneNumber_in :: "string option"

record IdentifyResponse =
  primaryContatctId :: int
  emails :: "string list"
  phoneNumbers :: "string list"
  secondaryContactIds :: "int list"

text \<open>
  Modelled from the spec: the schema of the table (prisma/schema.prisma) is not among the
  sources, so the defaults of the columns follow the data model of the specification: the
  id is a unique integer that grows with every insertion, \<open>createdAt\<close> is the time the
  store gives to the new row, and \<open>deletedAt\<close> starts as null. The table is the list of
  its rows in insertion order, together with the next value of the sequence that
  \<open>create\<close> draws the new id from.
\<close>

record Store =
  rows :: "Contact list"
  nextId :: int

text \<open>
  What a call can fail with. \<open>InvalidInput\<close> is the \<open>Error\<close> with \<open>statusCode = 400\<close>
  thrown by \<open>validateInput\<close>; \<open>KnownRequestError code\<close> is a
  \<open>PrismaClientKnownRequestError\<close> with that code (\<open>P2034\<close> is the serialization
  conflict); \<open>OtherStoreError\<close> is any other failure of the database client;
  \<open>TypeError\<close> is what reading a field of \<open>undefined\<close> would raise;
  \<open>Unreachable\<close> is the error thrown after the retry loop.
\<close>

datatype failure =
  InvalidInput
  | KnownRequestError string
  | OtherStoreError
  | TypeError
  | Unreachable

section \<open>Normalizer\<close>

definition isWhiteSpace :: "char \<Rightarrow> bool" where
  "isWhiteSpace c \<longleftrightarrow> c \<in> set [CHR 0x09, CHR 0x0A, CHR 0x0B, CHR 0x0C, CHR 0x0D, CHR '' '']"

definition lowerChar :: "char \<Rightarrow> char" where
  "lowerChar c =
     (if (65::nat) \<le> of_char c \<and> of_char c \<le> (90::nat) then char_of (of_char c + (32::nat)) else c)"

definition toLowerCase :: "string \<Rightarrow> string" where
  "toLowerCase s = map lowerChar s"

definition trim :: "string \<Rightarrow> string" where
  "trim s = rev (dropWhile isWhiteSpace (rev (dropWhile isWhiteSpace s)))"

text \<open>\<open>s || undefined\<close>: the empty string is falsy.\<close>

definition orUndefined :: "string \<Rightarrow> string option" where
  "orUndefined s = (if s = [] then None else Some s)"

text \<open>\<open>value.replace(/[\s\-\.()]/g, '').trim()\<close>\<close>

definition normalizePhone :: "string option \<Rightarrow> string option" where
  "normalizePhone v =
     (case v of
        None \<Rightarrow> None
      | Some s \<Rightarrow>
          orUndefined
            (trim (filter (\<lambda>c. \<not> (isWhiteSpace c \<or> c \<in> set [CHR ''-'', CHR ''.'', CHR ''('', CHR '')''])) s)))"

text \<open>\<open>value.toLowerCase().trim()\<close>\<close>

definition normalizeEmail :: "string option \<Rightarrow> string option" where
  "normalizeEmail v =
     (case v of
        None \<Rightarrow> None
      | Some s \<Rightarrow> orUndefined (trim (toLowerCase s)))"

definition validateInput :: "IdentifyRequest \<Rightarrow> failure option" where
  "validateInput input =
     (let e = normalizeEmail (email_in input);
          p = normalizePhone (phoneNumber_in input)
      in if e = None \<and> p = None then Some InvalidInput else None)"

section \<open>The store operations used by the transaction\<close>

text \<open>
  \<open>tx.contact.findMany({ where, orderBy: { createdAt: 'asc' } })\<close>: the rows that satisfy
  the filter, ordered by \<open>createdAt\<close>; rows with equal \<open>createdAt\<close> stay in table order.
\<close>

definition findMany :: "(Contact \<Rightarrow> bool) \<Rightarrow> Store \<Rightarrow> Contact list" where
  "findMany wh s = sort_key createdAt (filter wh (rows s))"

text \<open>
  The partial unique index of the migration
  (prisma/migrations/20260226170000_add_unique_email_partial_index/migration.sql):
  \<open>CREATE UNIQUE INDEX unique_email_not_null ON "Contact"(email) WHERE email IS NOT NULL\<close>.
  An insert whose email is not null is refused when some row of the table, deleted or
  not, holds that email; the client reports the violation as the known request error
  \<open>P2002\<close>.
\<close>

definition emailTaken :: "string option \<Rightarrow> Store \<Rightarrow> bool" where
  "emailTaken e s \<longleftrightarrow> (case e of None \<Rightarrow> False | Some x \<Rightarrow> Some x \<in> set (map email (rows s)))"

text \<open>
  Modelled from the spec: \<open>tx.contact.create({ data })\<close> with the column defaults of the
  schema, which is not among the sources: the new row takes the next id of the sequence
  and the time \<open>now\<close> of the call; it is not deleted. The insert fails when the unique
  index on \<open>email\<close> refuses it.
\<close>

definition create ::
  "string option \<Rightarrow> string option \<Rightarrow> LinkPrecedence \<Rightarrow> int option \<Rightarrow> int \<Rightarrow> Store
     \<Rightarrow> failure + (Contact \<times> Store)" where
  "create e p lp l now s =
     (if emailTaken e s then Inl (KnownRequestError ''P2002'')
      else
        (let c = \<lparr>id_of = nextId s, email = e, phoneNumber = p, linkPrecedence = lp,
                  linkedId = l, createdAt = now, deletedAt = None\<rparr>
         in Inr (c, s\<lparr>rows := rows s @ [c], nextId := nextId s + 1\<rparr>)))"

text \<open>
  \<open>tx.contact.updateMany({ where: { id: { in: ids } },
     data: { linkPrecedence: 'secondary', linkedId: pid } })\<close>
\<close>

definition demote :: "int \<Rightarrow> Contact \<Rightarrow> Contact" where
  "demote pid c = c\<lparr>linkPrecedence := secondary, linkedId := Some pid\<rparr>"

definition updateMany :: "int list \<Rightarrow> int \<Rightarrow> Store \<Rightarrow> Store" where
  "updateMany ids pid s =
     s\<lparr>rows := map (\<lambda>c. if id_of c \<in> set ids then demote pid c else c) (rows s)\<rparr>"

section \<open>The transaction body\<close>

text \<open>A string column is truthy when it is neither null nor empty.\<close>

definition truthy :: "string option \<Rightarrow> bool" where
  "truthy v \<longleftrightarrow> (case v of None \<Rightarrow> False | Some x \<Rightarrow> x \<noteq> [])"

text \<open>
  The seed query (lines 52-63): not deleted, and the email equals the given one or the
  phone number equals the given one; an absent side adds no condition.
\<close>

definition seedWhere :: "string option \<Rightarrow> string option \<Rightarrow> Contact \<Rightarrow> bool" where
  "seedWhere e p c \<longleftrightarrow>
     deletedAt c = None \<and>
     ((truthy e \<and> email c = e) \<or> (truthy p \<and> phoneNumber c = p))"

definition directMatches :: "Store \<Rightarrow> string option \<Rightarrow> string option \<Rightarrow> Contact list" where
  "directMatches s e p = findMany (seedWhere e p) s"

text \<open>
  One round of the expansion loop (lines 91-109). The sets \<open>emails\<close> and \<open>phones\<close>
  hold the truthy values of the working group; \<open>groupIds\<close> is kept in step with
  \<open>group\<close> by the source (each push adds the id), so it is the ids of \<open>group\<close>.
\<close>

definition valuesOf :: "(Contact \<Rightarrow> string option) \<Rightarrow> Contact list \<Rightarrow> string list" where
  "valuesOf field grp = concat (map (\<lambda>c. if truthy (field c) then [the (field c)] else []) grp)"

definition isIn :: "string option \<Rightarrow> string list \<Rightarrow> bool" where
  "isIn v xs \<longleftrightarrow> (case v of None \<Rightarrow> False | Some x \<Rightarrow> x \<in> set xs)"

definition expandWhere :: "Contact list \<Rightarrow> Contact \<Rightarrow> bool" where
  "expandWhere grp c \<longleftrightarrow>
     deletedAt c = None \<and>
     id_of c \<notin> set (map id_of grp) \<and>
     (isIn (email c) (valuesOf email grp) \<or> isIn (phoneNumber c) (valuesOf phoneNumber grp))"

text \<open>
  The loop \<open>while (true)\<close> of lines 90-117: query, stop when the query is empty,
  otherwise push the new rows and go round again. It ends since every round takes rows
  whose id is not yet in the group.
\<close>

function expandGroup :: "Store \<Rightarrow> Contact list \<Rightarrow> Contact list" where
  "expandGroup s grp =
     (let nxt = findMany (expandWhere grp) s
      in if nxt = [] then grp else expandGroup s (grp @ nxt))"
  by pat_completeness auto
termination
proof (relation "measure (\<lambda>(s, grp). length (filter (\<lambda>c. id_of c \<notin> set (map id_of grp)) (rows s)))")
  show "wf (measure (\<lambda>(s, grp). length (filter (\<lambda>c. id_of c \<notin> set (map id_of grp)) (rows s))))"
    by simp
next
  fix s :: Store and grp nxt :: "Contact list"
  assume nx: "nxt = findMany (expandWhere grp) s" and ne: "nxt \<noteq> []"
  from ne obtain c where c: "c \<in> set nxt" by (cases "nxt") auto
  with nx have cr: "c \<in> set (rows s)" and cw: "expandWhere grp c"
    by (auto simp: findMany_def)
  let ?P = "\<lambda>c. id_of c \<notin> set (map id_of grp)"
  let ?Q = "\<lambda>c. id_of c \<notin> set (map id_of (grp @ nxt))"
  have "filter ?Q (rows s) = filter ?Q (filter ?P (rows s))"
    by (induction "rows s") (auto simp: filter_id_conv intro: filter_cong)
  moreover have "length (filter ?Q (filter ?P (rows s))) < length (filter ?P (rows s))"
  proof (rule length_filter_less[of c])
    show "c \<in> set (filter ?P (rows s))"
      using cr cw by (simp add: expandWhere_def)
    show "\<not> ?Q c" using c by auto
  qed
  ultimately have "length (filter ?Q (rows s)) < length (filter ?P (rows s))"
    by simp
  then show "((s, grp @ nxt), (s, grp))
     \<in> measure (\<lambda>(s, grp). length (filter (\<lambda>c. id_of c \<notin> set (map id_of grp)) (rows s)))"
    by (simp add: image_Un)
qed

declare expandGroup.simps [simp del]

text \<open>
  Lines 119-127: \<open>group.sort((a, b) => (a.createdAt < b.createdAt ? -1 : 1))\<close>, then the
  scan of the sorted group for the oldest member, starting from \<open>group[0]\<close>. The sort
  of the runtime is stable and only asks whether the comparator's result is negative, so
  rows with equal \<open>createdAt\<close> keep their order in the group.
\<close>

definition sortGroup :: "Contact list \<Rightarrow> Contact list" where
  "sortGroup grp = sort_key createdAt grp"

definition electPrimary :: "Contact list \<Rightarrow> Contact option" where
  "electPrimary grp =
     (case grp of
        [] \<Rightarrow> None
      | g0 # rest \<Rightarrow>
          Some (fold (\<lambda>c prim. if createdAt c < createdAt prim then c else prim) grp g0))"

text \<open>Lines 129-132.\<close>

definition otherPrimaries :: "Contact \<Rightarrow> Contact list \<Rightarrow> Contact list" where
  "otherPrimaries prim grp =
     filter (\<lambda>c. id_of c \<noteq> id_of prim \<and> linkPrecedence c = primary) grp"

text \<open>Lines 134-142.\<close>

definition demoteOthers :: "Contact \<Rightarrow> Contact list \<Rightarrow> Store \<Rightarrow> Store" where
  "demoteOthers prim grp s =
     (let others = otherPrimaries prim grp
      in if others \<noteq> [] then updateMany (map id_of others) (id_of prim) s else s)"

text \<open>
  Lines 145-151 and 186-192: the group rooted at the elected contact, the contact itself
  and the rows that link to it.
\<close>

definition rootedWhere :: "int \<Rightarrow> Contact \<Rightarrow> bool" where
  "rootedWhere pid c \<longleftrightarrow> deletedAt c = None \<and> (id_of c = pid \<or> linkedId c = Some pid)"

definition rootedGroup :: "int \<Rightarrow> Store \<Rightarrow> Contact list" where
  "rootedGroup pid s = findMany (rootedWhere pid) s"

text \<open>Lines 154-163: the normalized values that the rooted group holds.\<close>

definition existingEmails :: "Contact list \<Rightarrow> string list" where
  "existingEmails g = concat (map (\<lambda>c. case normalizeEmail (email c) of None \<Rightarrow> [] | Some e \<Rightarrow> [e]) g)"

definition existingPhones :: "Contact list \<Rightarrow> string list" where
  "existingPhones g = concat (map (\<lambda>c. case normalizePhone (phoneNumber c) of None \<Rightarrow> [] | Some p \<Rightarrow> [p]) g)"

text \<open>Lines 166-172.\<close>

definition shouldCreateSecondary :: "string option \<Rightarrow> string option \<Rightarrow> Contact list \<Rightarrow> bool" where
  "shouldCreateSecondary e p g \<longleftrightarrow>
     (truthy e \<and> \<not> isIn e (existingEmails g)) \<or> (truthy p \<and> \<not> isIn p (existingPhones g))"

text \<open>
  Lines 196-236, written once for both columns: the elected contact's value first when it
  is truthy, then the values of the other rows in the order of \<open>createdAt\<close>, each value
  once. The set \<open>seen\<close> of the source holds the values pushed so far.
\<close>

definition pushUnseen :: "string list \<Rightarrow> string list \<Rightarrow> string list" where
  "pushUnseen others acc = fold (\<lambda>v out. if v \<in> set out then out else out @ [v]) others acc"

definition collectValues :: "(Contact \<Rightarrow> string option) \<Rightarrow> Contact \<Rightarrow> Contact list \<Rightarrow> string list" where
  "collectValues field fresh finalGroup =
     (let firstv = (if truthy (field fresh) then [the (field fresh)] else []);
          others = map (\<lambda>c. (the (field c), createdAt c))
                     (filter (\<lambda>c. truthy (field c) \<and> the (field c) \<notin> set firstv) finalGroup);
          srt = sort_key snd others
      in pushUnseen (map fst srt) firstv)"

text \<open>Lines 239-245.\<close>

definition secondaryIdsOf :: "Contact \<Rightarrow> Contact list \<Rightarrow> int list" where
  "secondaryIdsOf fresh finalGroup =
     sort (map id_of
       (filter (\<lambda>c. linkPrecedence c = secondary \<and> linkedId c = Some (id_of fresh)) finalGroup))"

definition buildResponse :: "Contact \<Rightarrow> Contact list \<Rightarrow> IdentifyResponse" where
  "buildResponse fresh finalGroup =
     \<lparr>primaryContatctId = id_of fresh,
      emails = collectValues email fresh finalGroup,
      phoneNumbers = collectValues phoneNumber fresh finalGroup,
      secondaryContactIds = secondaryIdsOf fresh finalGroup\<rparr>"

text \<open>
  Lines 174-183: the write of the Secondary Writer. A refused insert throws, which ends
  the transaction body.
\<close>

definition writeSecondary ::
  "string option \<Rightarrow> string option \<Rightarrow> Contact \<Rightarrow> int \<Rightarrow> Store \<Rightarrow> failure + Store" where
  "writeSecondary e p prim now s =
     (if shouldCreateSecondary e p (rootedGroup (id_of prim) s)
      then (case create e p secondary (Some (id_of prim)) now s of
              Inl err \<Rightarrow> Inl err
            | Inr (created, s') \<Rightarrow> Inr s')
      else Inr s)"

text \<open>
  \<open>identifyInTransaction\<close>, lines 45-255. The argument \<open>now\<close> is the time that the
  database gives to a row created by this transaction. An error thrown by a store
  operation leaves the body at once; the transaction is then rolled back, so a failed
  body returns no store.
\<close>

definition identifyInTransaction ::
  "Store \<Rightarrow> int \<Rightarrow> IdentifyRequest \<Rightarrow> failure + (Store \<times> IdentifyResponse)" where
  "identifyInTransaction s now input =
     (let e = normalizeEmail (email_in input);
          p = normalizePhone (phoneNumber_in input);
          direct = directMatches s e p
      in if direct = [] then
           (case create e p primary None now s of
              Inl err \<Rightarrow> Inl err
            | Inr (created, s1) \<Rightarrow>
                Inr (s1,
                  \<lparr>primaryContatctId = id_of created,
                   emails = (if truthy (email created) then [the (email created)] else []),
                   phoneNumbers = (if truthy (phoneNumber created) then [the (phoneNumber created)] else []),
                   secondaryContactIds = []\<rparr>))
         else
           (let grp = sortGroup (expandGroup s direct)
            in case electPrimary grp of
                 None \<Rightarrow> Inl TypeError
               | Some prim \<Rightarrow>
                   (let s1 = demoteOthers prim grp s
                    in case writeSecondary e p prim now s1 of
                         Inl err \<Rightarrow> Inl err
                       | Inr s2 \<Rightarrow>
                           (let finalGroup = rootedGroup (id_of prim) s2
                            in case find (\<lambda>c. id_of c = id_of prim) finalGroup of
                                 None \<Rightarrow> Inl TypeError
                               | Some fresh \<Rightarrow> Inr (s2, buildResponse fresh finalGroup)))))"

section \<open>The retry loop\<close>

text \<open>
  \<open>identifyContact\<close>, lines 257-289. What the database does to an attempt is given from
  outside: attempt \<open>n\<close> either commits, and then the body ran on the store at time
  \<open>txTime n\<close>, or it is rolled back with an error (a serialization conflict, a lost
  connection) and leaves the store as it was. An error of the body itself rolls the
  attempt back too. The delays handed to \<open>setTimeout\<close> are recorded in order.
\<close>

datatype TxOutcome = Commits | RolledBack failure

record Env =
  txOutcome :: "nat \<Rightarrow> TxOutcome"
  txTime :: "nat \<Rightarrow> int"

record Run =
  result :: "failure + IdentifyResponse"
  store :: Store
  delays :: "nat list"
  attempts :: nat

definition MAX_SERIALIZABLE_RETRIES :: nat where
  "MAX_SERIALIZABLE_RETRIES = 3"

definition transaction :: "Env \<Rightarrow> nat \<Rightarrow> Store \<Rightarrow> IdentifyRequest \<Rightarrow> failure + (Store \<times> IdentifyResponse)" where
  "transaction env attempt s input =
     (case txOutcome env attempt of
        RolledBack err \<Rightarrow> Inl err
      | Commits \<Rightarrow> identifyInTransaction s (txTime env attempt) input)"

definition isRetryableConflict :: "failure \<Rightarrow> bool" where
  "isRetryableConflict err \<longleftrightarrow> err = KnownRequestError ''P2034''"

function retryLoop :: "Env \<Rightarrow> Store \<Rightarrow> IdentifyRequest \<Rightarrow> nat \<Rightarrow> nat list \<Rightarrow> Run" where
  "retryLoop env s input attempt slept =
     (if attempt \<le> MAX_SERIALIZABLE_RETRIES then
        (case transaction env attempt s input of
           Inr (s', r) \<Rightarrow> \<lparr>result = Inr r, store = s', delays = slept, attempts = attempt\<rparr>
         | Inl err \<Rightarrow>
             if isRetryableConflict err \<and> attempt < MAX_SERIALIZABLE_RETRIES
             then retryLoop env s input (attempt + 1) (slept @ [20 * attempt])
             else \<lparr>result = Inl err, store = s, delays = slept, attempts = attempt\<rparr>)
      else \<lparr>result = Inl Unreachable, store = s, delays = slept, attempts = attempt - 1\<rparr>)"
  by pat_completeness auto
termination
  by (relation "measure (\<lambda>(env, s, input, attempt, slept). MAX_SERIALIZABLE_RETRIES + 1 - attempt)") auto

declare retryLoop.simps [simp del]

definition identifyContact :: "Env \<Rightarrow> Store \<Rightarrow> IdentifyRequest \<Rightarrow> Run" where
  "identifyContact env s input =
     (case validateInput input of
        Some err \<Rightarrow> \<lparr>result = Inl err, store = s, delays = [], attempts = 0\<rparr>
      | None \<Rightarrow> retryLoop env s input 1 [])"

section \<open>Concrete stores and environments\<close>

definition emptyStore :: Store where
  "emptyStore = \<lparr>rows = [], nextId = 1\<rparr>"

text \<open>An environment in which every attempt meets a serialization conflict.\<close>

definition alwaysConflicts :: Env where
  "alwaysConflicts =
     \<lparr>txOutcome = (\<lambda>n. RolledBack (KnownRequestError ''P2034'')), txTime = (\<lambda>n. int n)\<rparr>"

text \<open>An environment in which every attempt meets another failure of the database.\<close>

definition alwaysFails :: Env where
  "alwaysFails = \<lparr>txOutcome = (\<lambda>n. RolledBack OtherStoreError), txTime = (\<lambda>n. int n)\<rparr>"

text \<open>
  A store with two rows of the same creation time: the state after two calls within
  one millisecond, the second adding an email to the phone number of the first.
\<close>

definition tie1 :: Contact where
  "tie1 = \<lparr>id_of = 1, email = Some ''a@x.com'', phoneNumber = Some ''100'', linkPrecedence = primary,
            linkedId = None, createdAt = 100, deletedAt = None\<rparr>"

definition tie2 :: Contact where
  "tie2 = \<lparr>id_of = 2, email = Some ''b@x.com'', phoneNumber = Some ''100'', linkPrecedence = secondary,
            linkedId = Some 1, createdAt = 100, deletedAt = None\<rparr>"

definition tieStore :: Store where
  "tieStore = \<lparr>rows = [tie1, tie2], nextId = 3\<rparr>"

definition lowerIdOnTie :: "Contact list \<Rightarrow> Contact \<Rightarrow> bool" where
  "lowerIdOnTie grp prim \<longleftrightarrow> (\<forall>c \<in> set grp. createdAt c = createdAt prim \<longrightarrow> id_of prim \<le> id_of c)"

text \<open>
  The graph that the Cluster Resolver walks. Two contacts share a value when they
  hold the same truthy email or the same truthy phone number, compared as stored;
  \<open>sharesNormalized\<close> compares the normalized values instead. \<open>connected shares s seeds\<close>
  is the set of rows reached from the seeds through non-deleted rows of the store.
\<close>

definition sharesValue :: "Contact \<Rightarrow> Contact \<Rightarrow> bool" where
  "sharesValue c d \<longleftrightarrow>
     (truthy (email c) \<and> email c = email d) \<or> (truthy (phoneNumber c) \<and> phoneNumber c = phoneNumber d)"

definition sharesNormalized :: "Contact \<Rightarrow> Contact \<Rightarrow> bool" where
  "sharesNormalized c d \<longleftrightarrow>
     (normalizeEmail (email c) \<noteq> None \<and> normalizeEmail (email c) = normalizeEmail (email d)) \<or>
     (normalizePhone (phoneNumber c) \<noteq> None \<and> normalizePhone (phoneNumber c) = normalizePhone (phoneNumber d))"

inductive_set connected :: "(Contact \<Rightarrow> Contact \<Rightarrow> bool) \<Rightarrow> Store \<Rightarrow> Contact set \<Rightarrow> Contact set"
  for shares :: "Contact \<Rightarrow> Contact \<Rightarrow> bool" and s :: Store and seeds :: "Contact set" where
  seed: "c \<in> seeds \<Longrightarrow> c \<in> connected shares s seeds"
| link: "c \<in> connected shares s seeds \<Longrightarrow> d \<in> set (rows s) \<Longrightarrow> deletedAt d = None \<Longrightarrow> shares c d
         \<Longrightarrow> d \<in> connected shares s seeds"

text \<open>
  A store with an email that was not normalized when it was written (the source reckons
  with such rows, line 153).
\<close>

definition legacy1 :: Contact where
  "legacy1 = \<lparr>id_of = 1, email = Some ''a@x.com'', phoneNumber = Some ''100'', linkPrecedence = primary,
            linkedId = None, createdAt = 1, deletedAt = None\<rparr>"

definition legacy2 :: Contact where
  "legacy2 = \<lparr>id_of = 2, email = Some ''A@x.com'', phoneNumber = Some ''200'', linkPrecedence = primary,
            linkedId = None, createdAt = 2, deletedAt = None\<rparr>"

definition legacyStore :: Store where
  "legacyStore = \<lparr>rows = [legacy1, legacy2], nextId = 3\<rparr>"

section \<open>Names for the steps of a call\<close>

text \<open>
  The resolved group of a call is the sorted result of the expansion loop;
  \<open>newSecondary\<close> is the row that the Secondary Writer inserts; \<open>withSecondary\<close> is the
  store after an insert that the database accepts, and the final store of a call that
  found matches is the store after the demotion and that write. \<open>insertRefused\<close> says
  that the call reaches the insert of the Secondary Writer and that the unique index on
  \<open>email\<close> refuses it.
\<close>

definition resolvedGroup :: "Store \<Rightarrow> string option \<Rightarrow> string option \<Rightarrow> Contact list" where
  "resolvedGroup s e p = sortGroup (expandGroup s (directMatches s e p))"

definition liveRows :: "Store \<Rightarrow> Contact set" where
  "liveRows s = {c \<in> set (rows s). deletedAt c = None}"

definition newSecondary :: "string option \<Rightarrow> string option \<Rightarrow> int \<Rightarrow> int \<Rightarrow> int \<Rightarrow> Contact" where
  "newSecondary e p pid now fresh_id =
     \<lparr>id_of = fresh_id, email = e, phoneNumber = p, linkPrecedence = secondary,
      linkedId = Some pid, createdAt = now, deletedAt = None\<rparr>"

definition withSecondary :: "string option \<Rightarrow> string option \<Rightarrow> Contact \<Rightarrow> int \<Rightarrow> Store \<Rightarrow> Store" where
  "withSecondary e p prim now s =
     (if shouldCreateSecondary e p (rootedGroup (id_of prim) s)
      then s\<lparr>rows := rows s @ [newSecondary e p (id_of prim) now (nextId s)], nextId := nextId s + 1\<rparr>
      else s)"

text \<open>The final store of a call that found matches.\<close>

definition finalStore :: "Store \<Rightarrow> string option \<Rightarrow> string option \<Rightarrow> Contact \<Rightarrow> int \<Rightarrow> Store" where
  "finalStore s e p prim now = withSecondary e p prim now (demoteOthers prim (resolvedGroup s e p) s)"

definition insertRefused :: "Store \<Rightarrow> string option \<Rightarrow> string option \<Rightarrow> bool" where
  "insertRefused s e p \<longleftrightarrow>
     (case electPrimary (resolvedGroup s e p) of
        None \<Rightarrow> False
      | Some prim \<Rightarrow>
          shouldCreateSecondary e p (rootedGroup (id_of prim) (demoteOthers prim (resolvedGroup s e p) s)) \<and>
          emailTaken e s)"

text \<open>
  The normalized values that a group holds, as sets (the Secondary Writer's test).
\<close>

definition normalizedEmailsOf :: "Contact list \<Rightarrow> string set" where
  "normalizedEmailsOf g = {y. \<exists>c \<in> set g. normalizeEmail (email c) = Some y}"

definition normalizedPhonesOf :: "Contact list \<Rightarrow> string set" where
  "normalizedPhonesOf g = {y. \<exists>c \<in> set g. normalizePhone (phoneNumber c) = Some y}"

text \<open>
  The order of the returned values. \<open>firsts\<close> keeps each value at its first occurrence;
  \<open>firstCarried field g x\<close> is the earliest \<open>createdAt\<close> among the members of \<open>g\<close> that
  carry the value \<open>x\<close>. A list \<open>vs\<close> is in the order of the Response Projector when it
  starts with the elected contact's own value (if truthy), continues with the other values
  in ascending order of \<open>firstCarried\<close>, has no value twice, and holds exactly the
  non-empty values of the group.
\<close>

text \<open>Each value once, at its first occurrence.\<close>

primrec firsts :: "'a list \<Rightarrow> 'a list" where
  "firsts [] = []"
| "firsts (x # xs) = x # filter (\<lambda>y. y \<noteq> x) (firsts xs)"

definition firstCarried :: "(Contact \<Rightarrow> string option) \<Rightarrow> Contact list \<Rightarrow> string \<Rightarrow> int" where
  "firstCarried field g x = Min (createdAt ` {c \<in> set g. field c = Some x})"

definition orderedValues :: "(Contact \<Rightarrow> string option) \<Rightarrow> Contact \<Rightarrow> Contact list \<Rightarrow> string list \<Rightarrow> bool" where
  "orderedValues field fresh g vs \<longleftrightarrow>
     (\<exists>rest. vs = (if truthy (field fresh) then [the (field fresh)] else []) @ rest \<and>
             sorted (map (firstCarried field g) rest)) \<and>
     distinct vs \<and>
     set vs = {x. x \<noteq> [] \<and> (\<exists>c \<in> set g. field c = Some x)}"

section \<open>More concrete stores and requests\<close>

text \<open>
  The state after \<open>a@x.com\<close> and the phone number \<open>100\<close> were first seen apart and then
  together: the second row was demoted and no row was added.
\<close>

definition merged1 :: Contact where
  "merged1 = \<lparr>id_of = 1, email = Some ''a@x.com'', phoneNumber = None, linkPrecedence = primary,
            linkedId = None, createdAt = 1, deletedAt = None\<rparr>"

definition merged2 :: Contact where
  "merged2 = \<lparr>id_of = 2, email = None, phoneNumber = Some ''100'', linkPrecedence = secondary,
            linkedId = Some 1, createdAt = 2, deletedAt = None\<rparr>"

definition mergedStore :: Store where
  "mergedStore = \<lparr>rows = [merged1, merged2], nextId = 3\<rparr>"


text \<open>Two primaries that share nothing, and a request that brings them together.\<close>

definition twoPrim1 :: Contact where
  "twoPrim1 = \<lparr>id_of = 1, email = Some ''a@x.com'', phoneNumber = None, linkPrecedence = primary,
            linkedId = None, createdAt = 1, deletedAt = None\<rparr>"

definition twoPrim2 :: Contact where
  "twoPrim2 = \<lparr>id_of = 2, email = None, phoneNumber = Some ''100'', linkPrecedence = primary,
            linkedId = None, createdAt = 2, deletedAt = None\<rparr>"

definition twoPrimaries :: Store where
  "twoPrimaries = \<lparr>rows = [twoPrim1, twoPrim2], nextId = 3\<rparr>"

definition bothValues :: IdentifyRequest where
  "bothValues = \<lparr>email_in = Some ''a@x.com'', phoneNumber_in = Some ''100''\<rparr>"

definition legacyMerge :: IdentifyRequest where
  "legacyMerge = \<lparr>email_in = Some ''a@x.com'', phoneNumber_in = Some ''200''\<rparr>"

section \<open>Stores reached by calls, and their invariants\<close>

text \<open>
  A store is reachable when it results from the empty store by calls with valid input
  that return a result; a call that fails is rolled back and leaves the store as it was.
\<close>

inductive reachable :: "Store \<Rightarrow> bool" where
  init: "reachable emptyStore"
| call: "reachable s \<Longrightarrow> validateInput input = None \<Longrightarrow>
         identifyInTransaction s now input = Inr (s', r) \<Longrightarrow> reachable s'"

text \<open>
  What the keys of the table give: \<open>id\<close> is the primary key and is drawn from the
  sequence, so ids are unique and below the next value of the sequence; a \<open>linkedId\<close> is
  the id of a row of the table.
\<close>

definition keyed :: "Store \<Rightarrow> bool" where
  "keyed s \<longleftrightarrow>
     distinct (map id_of (rows s)) \<and>
     (\<forall>c \<in> set (rows s). id_of c < nextId s) \<and>
     (\<forall>c \<in> set (rows s). \<forall>j. linkedId c = Some j \<longrightarrow> j \<in> id_of ` set (rows s))"

text \<open>
  No row is deleted, and every stored email and phone number is a value of the
  normalizer (so it is not empty and normalizing it again changes nothing).
\<close>

definition storedNormalized :: "Store \<Rightarrow> bool" where
  "storedNormalized s \<longleftrightarrow>
     (\<forall>c \<in> set (rows s). deletedAt c = None \<and>
         normalizeEmail (email c) = email c \<and> normalizePhone (phoneNumber c) = phoneNumber c)"

text \<open>
  The part of the data model's invariant that every call keeps: a connected cluster
  holds at most one primary; a contact is primary exactly when it has no link, and a link
  is the id of another contact of the store.
\<close>

definition atMostOnePrimary :: "Store \<Rightarrow> bool" where
  "atMostOnePrimary s \<longleftrightarrow>
     (\<forall>c \<in> liveRows s. \<forall>p \<in> connected sharesNormalized s {c}. \<forall>q \<in> connected sharesNormalized s {c}.
         linkPrecedence p = primary \<longrightarrow> linkPrecedence q = primary \<longrightarrow> p = q)"

definition othersLinked :: "Store \<Rightarrow> bool" where
  "othersLinked s \<longleftrightarrow>
     (\<forall>c \<in> set (rows s).
        (linkPrecedence c = primary \<longleftrightarrow> linkedId c = None) \<and>
        (\<forall>j. linkedId c = Some j \<longrightarrow> j \<noteq> id_of c \<and> (\<exists>d \<in> set (rows s). id_of d = j)))"

text \<open>
  The invariant of the specification's data model, in its words: every connected
  cluster holds exactly one primary, to which every other member links, and no link names
  a secondary.
\<close>

definition onePrimaryPerCluster :: "Store \<Rightarrow> bool" where
  "onePrimaryPerCluster s \<longleftrightarrow>
     (\<forall>c \<in> liveRows s. \<exists>p \<in> connected sharesNormalized s {c}.
         linkPrecedence p = primary \<and>
         (\<forall>q \<in> connected sharesNormalized s {c}. linkPrecedence q = primary \<longrightarrow> q = p) \<and>
         (\<forall>m \<in> connected sharesNormalized s {c}. m \<noteq> p \<longrightarrow> linkedId m = Some (id_of p)))"

definition noLinkToSecondary :: "Store \<Rightarrow> bool" where
  "noLinkToSecondary s \<longleftrightarrow>
     (\<forall>c \<in> set (rows s). \<forall>d \<in> set (rows s). linkedId c = Some (id_of d) \<longrightarrow> linkPrecedence d \<noteq> secondary)"

definition clusterInvariant :: "Store \<Rightarrow> bool" where
  "clusterInvariant s \<longleftrightarrow> onePrimaryPerCluster s \<and> noLinkToSecondary s"

text \<open>
  The state after three calls: the phone number \<open>100\<close>, then \<open>b@x.com\<close> with the phone
  number \<open>200\<close>, then \<open>c@x.com\<close> with \<open>200\<close>; and the state after a fourth call,
  \<open>b@x.com\<close> with \<open>100\<close>, which demotes the second row and writes nothing.
\<close>

definition chain1 :: Contact where
  "chain1 = \<lparr>id_of = 1, email = None, phoneNumber = Some ''100'', linkPrecedence = primary,
             linkedId = None, createdAt = 1, deletedAt = None\<rparr>"

definition chain2 :: Contact where
  "chain2 = \<lparr>id_of = 2, email = Some ''b@x.com'', phoneNumber = Some ''200'', linkPrecedence = primary,
             linkedId = None, createdAt = 2, deletedAt = None\<rparr>"

definition chain3 :: Contact where
  "chain3 = \<lparr>id_of = 3, email = Some ''c@x.com'', phoneNumber = Some ''200'', linkPrecedence = secondary,
             linkedId = Some 2, createdAt = 3, deletedAt = None\<rparr>"

definition beforeChain :: Store where
  "beforeChain = \<lparr>rows = [chain1, chain2, chain3], nextId = 4\<rparr>"

definition chainStore :: Store where
  "chainStore = \<lparr>rows = [chain1, demote 1 chain2, chain3], nextId = 4\<rparr>"

definition chainMerge :: IdentifyRequest where
  "chainMerge = \<lparr>email_in = Some ''b@x.com'', phoneNumber_in = Some ''100''\<rparr>"







text \<open>
  The example of the specification: the store after \<open>a@x.com\<close> was seen, and the request
  with \<open>a@x.com\<close> and the phone number \<open>+1555\<close>.
\<close>

definition firstSeen :: Store where
  "firstSeen = \<lparr>rows = [twoPrim1], nextId = 2\<rparr>"

definition specExample :: IdentifyRequest where
  "specExample = \<lparr>email_in = Some ''a@x.com'', phoneNumber_in = Some ''+1555''\<rparr>"

text \<open>
  A request that brings a new email to the phone number of \<open>tieStore\<close>, and the store
  after it when the new row is created at the time 100 of the two rows that exist.
\<close>

definition newEmail :: IdentifyRequest where
  "newEmail = \<lparr>email_in = Some ''c@x.com'', phoneNumber_in = Some ''100''\<rparr>"

definition tie3 :: Contact where
  "tie3 = \<lparr>id_of = 3, email = Some ''c@x.com'', phoneNumber = Some ''100'', linkPrecedence = secondary,
           linkedId = Some 1, createdAt = 100, deletedAt = None\<rparr>"

definition afterNewEmail :: Store where
  "afterNewEmail = \<lparr>rows = [tie1, tie2, tie3], nextId = 4\<rparr>"

text \<open>
  A store whose one row carries a creation time that is later than the time of the
  call that follows (the clock of the database was set back): the row, the row that the
  call with \<open>newEmail\<close> at time 3 creates, and the store after that call.
\<close>

definition late1 :: Contact where
  "late1 = \<lparr>id_of = 1, email = Some ''a@x.com'', phoneNumber = Some ''100'', linkPrecedence = primary,
            linkedId = None, createdAt = 10, deletedAt = None\<rparr>"

definition late2 :: Contact where
  "late2 = \<lparr>id_of = 2, email = Some ''c@x.com'', phoneNumber = Some ''100'', linkPrecedence = secondary,
            linkedId = Some 1, createdAt = 3, deletedAt = None\<rparr>"

definition lateStore :: Store where
  "lateStore = \<lparr>rows = [late1], nextId = 2\<rparr>"

definition afterLate :: Store where
  "afterLate = \<lparr>rows = [late1, late2], nextId = 3\<rparr>"

section \<open>The Normalizer is idempotent\<close>

lemma set_trim: "set (trim s) \<subseteq> set s"
proof -
  have "set (dropWhile isWhiteSpace (rev (dropWhile isWhiteSpace s))) \<subseteq> set (rev (dropWhile isWhiteSpace s))"
    by (rule set_dropWhileD[THEN subsetI])
  also have "\<dots> \<subseteq> set s" by (auto dest: set_dropWhileD)
  finally show ?thesis by (simp add: trim_def)
qed

lemma trim_trimmed:
  assumes "s = [] \<or> (\<not> isWhiteSpace (hd s) \<and> \<not> isWhiteSpace (last s))"
  shows "trim s = s"
proof (cases "s = []")
  case True
  then show ?thesis by (simp add: trim_def)
next
  case False
  then have a: "dropWhile isWhiteSpace s = s"
    using assms by (simp add: dropWhile_eq_self_iff)
  have "hd (rev s) = last s" using False by (simp add: hd_rev)
  then have "dropWhile isWhiteSpace (rev s) = rev s"
    using assms False by (simp add: dropWhile_eq_self_iff)
  then show ?thesis using a by (simp add: trim_def)
qed

lemma last_dropWhile: "dropWhile P xs \<noteq> [] \<Longrightarrow> last (dropWhile P xs) = last xs"
  by (induction xs) (auto split: if_splits)

lemma trimmed_trim:
  "trim s = [] \<or> (\<not> isWhiteSpace (hd (trim s)) \<and> \<not> isWhiteSpace (last (trim s)))"
proof (cases "trim s = []")
  case True
  then show ?thesis by simp
next
  case False
  let ?t = "dropWhile isWhiteSpace s"
  let ?r = "dropWhile isWhiteSpace (rev ?t)"
  have r: "?r \<noteq> []" using False by (simp add: trim_def)
  have t: "?t \<noteq> []"
  proof
    assume a: "?t = []"
    have "?r = []" unfolding a by simp
    then show False using r by simp
  qed
  have "\<not> isWhiteSpace (hd ?r)" using r by (rule hd_dropWhile)
  then have l: "\<not> isWhiteSpace (last (trim s))"
    using r by (simp add: trim_def last_rev)
  have "last ?r = last (rev ?t)" using r by (rule last_dropWhile)
  then have "last ?r = hd ?t" using t by (simp only: last_rev)
  moreover have "\<not> isWhiteSpace (hd ?t)" using t by (rule hd_dropWhile)
  ultimately have "\<not> isWhiteSpace (hd (trim s))"
    using r by (simp add: trim_def hd_rev)
  then show ?thesis using l by simp
qed

lemma trim_idem: "trim (trim s) = trim s"
  by (rule trim_trimmed) (rule trimmed_trim)

lemma lowerChar_idem: "lowerChar (lowerChar c) = lowerChar c"
proof (cases "(65::nat) \<le> of_char c \<and> of_char c \<le> (90::nat)")
  case True
  let ?c' = "char_of (of_char c + (32::nat)) :: char"
  have "of_char ?c' = (of_char c + 32 :: nat)"
    using True by (simp add: of_char_of)
  then have "\<not> ((65::nat) \<le> of_char ?c' \<and> of_char ?c' \<le> (90::nat))"
    using True by simp
  then have "lowerChar ?c' = ?c'" by (simp add: lowerChar_def)
  moreover have "lowerChar c = ?c'" using True by (simp add: lowerChar_def)
  ultimately show ?thesis by simp
next
  case False
  then have "lowerChar c = c" by (auto simp: lowerChar_def)
  then show ?thesis by simp
qed

lemma toLowerCase_idem_on_trim: "toLowerCase (trim (toLowerCase s)) = trim (toLowerCase s)"
proof -
  have "lowerChar c = c" if "c \<in> set (trim (toLowerCase s))" for c
  proof -
    from that have "c \<in> set (toLowerCase s)" using set_trim by blast
    then obtain d where "c = lowerChar d" by (auto simp: toLowerCase_def)
    then show ?thesis using lowerChar_idem[of d] by simp
  qed
  then show ?thesis
    unfolding toLowerCase_def[of "trim (map lowerChar s)"] toLowerCase_def[of s] by (intro map_idI)
qed

lemma normalizeEmail_idem: "normalizeEmail (normalizeEmail v) = normalizeEmail v"
proof (cases v)
  case None
  then show ?thesis by (simp add: normalizeEmail_def)
next
  case (Some s)
  show ?thesis
  proof (cases "trim (toLowerCase s) = []")
    case True
    then show ?thesis using Some by (simp add: normalizeEmail_def orUndefined_def)
  next
    case False
    then show ?thesis
      using Some by (simp add: normalizeEmail_def orUndefined_def toLowerCase_idem_on_trim trim_idem)
  qed
qed

lemma normalizePhone_idem: "normalizePhone (normalizePhone v) = normalizePhone v"
proof (cases v)
  case None
  then show ?thesis by (simp add: normalizePhone_def)
next
  case (Some s)
  let ?Q = "\<lambda>c. \<not> (isWhiteSpace c \<or> c \<in> set [CHR ''-'', CHR ''.'', CHR ''('', CHR '')''])"
  let ?t = "trim (filter ?Q s)"
  have "\<forall>c \<in> set ?t. ?Q c" using set_trim[of "filter ?Q s"] by auto
  then have f: "filter ?Q ?t = ?t" by (simp only: filter_id_conv)
  show ?thesis
  proof (cases "?t = []")
    case True
    then show ?thesis using Some by (simp add: normalizePhone_def orUndefined_def)
  next
    case False
    then show ?thesis
      using Some f by (simp add: normalizePhone_def orUndefined_def trim_idem)
  qed
qed

section \<open>The expansion loop\<close>

lemma expandGroup_invariant:
  assumes "I grp"
    and "\<And>g. I g \<Longrightarrow> findMany (expandWhere g) s \<noteq> [] \<Longrightarrow> I (g @ findMany (expandWhere g) s)"
  shows "I (expandGroup s grp) \<and> findMany (expandWhere (expandGroup s grp)) s = []"
  using assms
proof (induction s grp rule: expandGroup.induct)
  case (1 s grp)
  show ?case
  proof (cases "findMany (expandWhere grp) s = []")
    case True
    then show ?thesis using "1.prems"(1) by (subst (1 2) expandGroup.simps) simp
  next
    case False
    have "I (grp @ findMany (expandWhere grp) s)"
      using "1.prems" False by blast
    then have "I (expandGroup s (grp @ findMany (expandWhere grp) s)) \<and>
         findMany (expandWhere (expandGroup s (grp @ findMany (expandWhere grp) s))) s = []"
      using "1.IH"[OF refl False _ "1.prems"(2)] by blast
    then show ?thesis using False by (subst (1 2) expandGroup.simps) (simp add: Let_def)
  qed
qed

lemma isIn_valuesOf:
  "isIn v (valuesOf field g) \<longleftrightarrow> (\<exists>c \<in> set g. truthy (field c) \<and> field c = v)"
proof (cases v)
  case None
  then show ?thesis by (auto simp: isIn_def truthy_def split: option.splits)
next
  case (Some a)
  have "a \<in> set (valuesOf field g) \<longleftrightarrow> (\<exists>c \<in> set g. truthy (field c) \<and> field c = Some a)"
    by (induction g) (auto simp: valuesOf_def truthy_def split: option.splits)
  then show ?thesis using Some by (simp add: isIn_def)
qed

lemma set_findMany: "set (findMany wh s) = {c \<in> set (rows s). wh c}"
  by (auto simp: findMany_def)

lemma distinct_ids_findMany:
  assumes "distinct (map id_of (rows s))"
  shows "distinct (map id_of (findMany wh s))"
proof -
  have "distinct (map id_of (filter wh (rows s)))"
    using assms by (rule distinct_map_filter)
  then show ?thesis
    by (simp add: findMany_def distinct_map)
qed

lemma same_row:
  assumes "distinct (map id_of xs)" "c \<in> set xs" "d \<in> set xs" "id_of c = id_of d"
  shows "c = d"
  using assms by (meson distinct_map inj_onD)

lemma expandGroup_connected:
  assumes ids: "distinct (map id_of (rows s))"
    and seeds: "set grp0 \<subseteq> {c \<in> set (rows s). deletedAt c = None}" "distinct (map id_of grp0)"
  shows "set (expandGroup s grp0) = connected sharesValue s (set grp0)"
    and "distinct (map id_of (expandGroup s grp0))"
    and "findMany (expandWhere (expandGroup s grp0)) s = []"
proof -
  let ?I = "\<lambda>g. set grp0 \<subseteq> set g \<and> set g \<subseteq> connected sharesValue s (set grp0) \<and>
                 set g \<subseteq> {c \<in> set (rows s). deletedAt c = None} \<and> distinct (map id_of g)"
  have base: "?I grp0"
    using seeds by (auto intro: connected.seed)
  have step: "?I (g @ findMany (expandWhere g) s)" if g: "?I g" for g
  proof -
    let ?n = "findMany (expandWhere g) s"
    have "d \<in> connected sharesValue s (set grp0)" if "d \<in> set ?n" for d
    proof -
      from that have d: "d \<in> set (rows s)" "expandWhere g d" by (auto simp: set_findMany)
      then obtain c where "c \<in> set g" "sharesValue c d"
        by (auto simp: expandWhere_def isIn_valuesOf sharesValue_def)
      then show ?thesis using g d by (auto simp: expandWhere_def intro: connected.link)
    qed
    moreover have "set ?n \<subseteq> {c \<in> set (rows s). deletedAt c = None}"
      by (auto simp: set_findMany expandWhere_def)
    moreover have fresh: "id_of d \<notin> id_of ` set g" if "d \<in> set ?n" for d
      using that by (simp add: set_findMany expandWhere_def)
    have "id_of ` set g \<inter> id_of ` set ?n = {}"
    proof (rule ccontr)
      assume "id_of ` set g \<inter> id_of ` set ?n \<noteq> {}"
      then obtain x where x: "x \<in> id_of ` set g" "x \<in> id_of ` set ?n" by auto
      from x(2) obtain d where d: "d \<in> set ?n" "x = id_of d" by auto
      show False using fresh[OF d(1)] x(1) d(2) by simp
    qed
    then have "distinct (map id_of (g @ ?n))"
      using g distinct_ids_findMany[OF ids, of "expandWhere g"] by simp
    ultimately show ?thesis using g by auto
  qed
  have fin: "?I (expandGroup s grp0) \<and> findMany (expandWhere (expandGroup s grp0)) s = []"
    by (rule expandGroup_invariant[where I = ?I, OF base step])
  let ?G = "expandGroup s grp0"
  have closed: "d \<in> set ?G" if "c \<in> set ?G" "d \<in> set (rows s)" "deletedAt d = None" "sharesValue c d" for c d
  proof (rule ccontr)
    assume nd: "d \<notin> set ?G"
    have "id_of d \<notin> set (map id_of ?G)"
    proof
      assume "id_of d \<in> set (map id_of ?G)"
      then obtain d' where d': "d' \<in> set ?G" "id_of d' = id_of d" by auto
      then have "d' \<in> set (rows s)" using fin by auto
      then have "d' = d" using same_row[OF ids _ that(2)] d' by auto
      then show False using nd d' by simp
    qed
    then have "expandWhere ?G d"
      using that by (auto simp: expandWhere_def isIn_valuesOf sharesValue_def)
    then have "d \<in> set (findMany (expandWhere ?G) s)"
      using that by (simp add: set_findMany)
    then show False using fin by simp
  qed
  have "x \<in> set ?G" if "x \<in> connected sharesValue s (set grp0)" for x
    using that
  proof (induction rule: connected.induct)
    case (seed c)
    then show ?case using fin by auto
  next
    case (link c d)
    then show ?case using closed by blast
  qed
  then show "set ?G = connected sharesValue s (set grp0)" using fin by auto
  show "distinct (map id_of ?G)" using fin by simp
  show "findMany (expandWhere ?G) s = []" using fin by simp
qed

section \<open>Primary election\<close>

lemma fold_keeps_least:
  "\<forall>c \<in> set xs. createdAt p0 \<le> createdAt c \<Longrightarrow>
   fold (\<lambda>c prim. if createdAt c < createdAt prim then c else prim) xs p0 = p0"
  by (induction xs) auto

lemma electPrimary_sorted:
  assumes "sorted (map createdAt (g0 # rest))"
  shows "electPrimary (g0 # rest) = Some g0"
proof -
  have "\<forall>c \<in> set (g0 # rest). createdAt g0 \<le> createdAt c"
    using assms by auto
  then show ?thesis
    unfolding electPrimary_def by (simp only: list.case fold_keeps_least)
qed

lemma find_filter_Cons: "filter P xs = y # ys \<Longrightarrow> find P xs = Some y"
  by (induction xs) (auto split: if_splits)

lemma electPrimary_sortGroup:
  assumes "grp \<noteq> []"
  shows "\<exists>prim. electPrimary (sortGroup grp) = Some prim \<and> prim \<in> set grp \<and>
           (\<forall>c \<in> set grp. createdAt prim \<le> createdAt c) \<and>
           find (\<lambda>c. createdAt c = createdAt prim) grp = Some prim"
proof -
  obtain g0 rest where srt: "sort_key createdAt grp = g0 # rest"
    using assms length_sort[of createdAt grp] by (cases "sort_key createdAt grp") auto
  have sorted: "sorted (map createdAt (g0 # rest))"
    using sorted_sort_key[of createdAt grp] srt by simp
  have mem: "set (g0 # rest) = set grp"
    using set_sort[of createdAt grp] srt by simp
  have least: "\<forall>c \<in> set grp. createdAt g0 \<le> createdAt c"
    using sorted mem by auto
  have "filter (\<lambda>c. createdAt c = createdAt g0) grp
        = filter (\<lambda>c. createdAt c = createdAt g0) (sort_key createdAt grp)"
    by (rule sort_key_stable[symmetric])
  also have "\<dots> = g0 # filter (\<lambda>c. createdAt c = createdAt g0) rest"
    using srt by simp
  finally have "find (\<lambda>c. createdAt c = createdAt g0) grp = Some g0"
    by (rule find_filter_Cons)
  moreover have "electPrimary (sortGroup grp) = Some g0"
    using electPrimary_sorted[OF sorted] srt by (simp add: sortGroup_def)
  moreover have "g0 \<in> set grp" using mem by auto
  ultimately show ?thesis using least by blast
qed

section \<open>The effect of one call on the store\<close>

lemma expandGroup_live:
  assumes "set grp0 \<subseteq> liveRows s"
  shows "set grp0 \<subseteq> set (expandGroup s grp0) \<and> set (expandGroup s grp0) \<subseteq> liveRows s"
proof -
  let ?I = "\<lambda>g. set grp0 \<subseteq> set g \<and> set g \<subseteq> liveRows s"
  have "?I (expandGroup s grp0) \<and> findMany (expandWhere (expandGroup s grp0)) s = []"
  proof (rule expandGroup_invariant[where I = ?I])
    show "?I grp0" using assms by simp
  next
    fix g assume "?I g"
    then show "?I (g @ findMany (expandWhere g) s)"
      by (auto simp: set_findMany expandWhere_def liveRows_def)
  qed
  then show ?thesis by simp
qed

lemma directMatches_live: "set (directMatches s e p) \<subseteq> liveRows s"
  by (auto simp: directMatches_def set_findMany seedWhere_def liveRows_def)

lemma set_resolvedGroup: "set (resolvedGroup s e p) = set (expandGroup s (directMatches s e p))"
  by (simp add: resolvedGroup_def sortGroup_def)

lemma resolvedGroup_live: "set (resolvedGroup s e p) \<subseteq> liveRows s"
  using expandGroup_live[OF directMatches_live] by (simp add: set_resolvedGroup)

lemma resolvedGroup_nonempty:
  assumes "directMatches s e p \<noteq> []"
  shows "expandGroup s (directMatches s e p) \<noteq> []"
proof -
  have "set (directMatches s e p) \<subseteq> set (expandGroup s (directMatches s e p))"
    using expandGroup_live[OF directMatches_live] by simp
  moreover have "set (directMatches s e p) \<noteq> {}" using assms by simp
  ultimately show ?thesis by auto
qed


lemma elected_member:
  assumes "directMatches s e p \<noteq> []"
  shows "\<exists>prim. electPrimary (resolvedGroup s e p) = Some prim \<and> prim \<in> set (resolvedGroup s e p) \<and>
           (\<forall>c \<in> set (resolvedGroup s e p). createdAt prim \<le> createdAt c)"
  using electPrimary_sortGroup[OF resolvedGroup_nonempty[OF assms]]
  by (auto simp: resolvedGroup_def sortGroup_def)


lemma rows_demoteOthers:
  "rows (demoteOthers prim grp s) =
     map (\<lambda>c. if id_of c \<in> id_of ` set (otherPrimaries prim grp) then demote (id_of prim) c else c) (rows s)"
proof (cases "otherPrimaries prim grp = []")
  case True
  then show ?thesis by (simp add: demoteOthers_def Let_def)
next
  case False
  then show ?thesis by (simp add: demoteOthers_def updateMany_def Let_def)
qed

lemma nextId_demoteOthers: "nextId (demoteOthers prim grp s) = nextId s"
  by (simp add: demoteOthers_def updateMany_def Let_def)

lemma rows_withSecondary:
  "rows (withSecondary e p prim now s) =
     rows s @ (if shouldCreateSecondary e p (rootedGroup (id_of prim) s)
               then [newSecondary e p (id_of prim) now (nextId s)] else [])"
  by (simp add: withSecondary_def)

lemma emailTaken_demoteOthers: "emailTaken e (demoteOthers prim grp s) = emailTaken e s"
proof -
  have "map email (rows (demoteOthers prim grp s)) = map email (rows s)"
    by (simp add: rows_demoteOthers demote_def comp_def if_distrib cong: if_cong)
  then show ?thesis by (simp only: emailTaken_def)
qed

lemma writeSecondary_eq:
  "writeSecondary e p prim now s =
     (if shouldCreateSecondary e p (rootedGroup (id_of prim) s) \<and> emailTaken e s
      then Inl (KnownRequestError ''P2002'')
      else Inr (withSecondary e p prim now s))"
  by (simp add: writeSecondary_def withSecondary_def create_def newSecondary_def Let_def)

lemma demote_fields [simp]:
  "id_of (demote pid c) = id_of c" "deletedAt (demote pid c) = deletedAt c"
  "email (demote pid c) = email c" "phoneNumber (demote pid c) = phoneNumber c"
  "createdAt (demote pid c) = createdAt c"
  "linkPrecedence (demote pid c) = secondary" "linkedId (demote pid c) = Some pid"
  by (simp_all add: demote_def)

lemma find_id_Some:
  assumes "c \<in> set xs"
  shows "\<exists>fresh. find (\<lambda>x. id_of x = id_of c) xs = Some fresh \<and> id_of fresh = id_of c \<and> fresh \<in> set xs"
proof (cases "find (\<lambda>x. id_of x = id_of c) xs")
  case None
  then show ?thesis using assms by (auto simp: find_None_iff)
next
  case (Some a)
  then show ?thesis by (auto simp: find_Some_iff)
qed

lemma elected_in_final:
  assumes "prim \<in> liveRows s"
  shows "\<exists>c \<in> set (rootedGroup (id_of prim) (withSecondary e p prim now (demoteOthers prim grp s))).
           id_of c = id_of prim"
proof -
  let ?f = "\<lambda>c. if id_of c \<in> id_of ` set (otherPrimaries prim grp) then demote (id_of prim) c else c"
  have "?f prim \<in> set (rows (demoteOthers prim grp s))"
    using assms by (simp add: rows_demoteOthers liveRows_def)
  then have "?f prim \<in> set (rows (withSecondary e p prim now (demoteOthers prim grp s)))"
    by (simp add: rows_withSecondary)
  moreover have "rootedWhere (id_of prim) (?f prim)"
    using assms by (simp add: rootedWhere_def liveRows_def)
  ultimately have "?f prim \<in> set (rootedGroup (id_of prim) (withSecondary e p prim now (demoteOthers prim grp s)))"
    by (simp add: rootedGroup_def set_findMany)
  moreover have "id_of (?f prim) = id_of prim" by simp
  ultimately show ?thesis by blast
qed

lemma identify_matched:
  assumes "directMatches s (normalizeEmail (email_in input)) (normalizePhone (phoneNumber_in input)) \<noteq> []"
  shows "\<exists>prim fresh.
           electPrimary (resolvedGroup s (normalizeEmail (email_in input)) (normalizePhone (phoneNumber_in input))) = Some prim \<and>
           find (\<lambda>c. id_of c = id_of prim)
             (rootedGroup (id_of prim) (finalStore s (normalizeEmail (email_in input)) (normalizePhone (phoneNumber_in input)) prim now)) = Some fresh \<and>
           id_of fresh = id_of prim \<and>
           identifyInTransaction s now input =
             (if insertRefused s (normalizeEmail (email_in input)) (normalizePhone (phoneNumber_in input))
              then Inl (KnownRequestError ''P2002'')
              else Inr (finalStore s (normalizeEmail (email_in input)) (normalizePhone (phoneNumber_in input)) prim now,
                  buildResponse fresh (rootedGroup (id_of prim)
                     (finalStore s (normalizeEmail (email_in input)) (normalizePhone (phoneNumber_in input)) prim now))))"
proof -
  let ?e = "normalizeEmail (email_in input)" and ?p = "normalizePhone (phoneNumber_in input)"
  obtain prim where prim: "electPrimary (resolvedGroup s ?e ?p) = Some prim" "prim \<in> set (resolvedGroup s ?e ?p)"
    using elected_member[OF assms] by blast
  have live: "prim \<in> liveRows s" using prim(2) resolvedGroup_live by blast
  let ?s2 = "finalStore s ?e ?p prim now"
  obtain c where c: "c \<in> set (rootedGroup (id_of prim) ?s2)" "id_of c = id_of prim"
    using elected_in_final[OF live] unfolding finalStore_def by blast
  obtain fresh where fresh: "find (\<lambda>x. id_of x = id_of prim) (rootedGroup (id_of prim) ?s2) = Some fresh"
      "id_of fresh = id_of prim"
    using find_id_Some[OF c(1)] c(2) by auto
  have "identifyInTransaction s now input =
          (if insertRefused s ?e ?p then Inl (KnownRequestError ''P2002'')
           else Inr (?s2, buildResponse fresh (rootedGroup (id_of prim) ?s2)))"
    using assms prim(1) fresh(1)
    by (simp add: identifyInTransaction_def Let_def resolvedGroup_def finalStore_def insertRefused_def
        writeSecondary_eq emailTaken_demoteOthers)
  then show ?thesis using prim(1) fresh by blast
qed

lemma identify_matched_returns:
  assumes "directMatches s (normalizeEmail (email_in input)) (normalizePhone (phoneNumber_in input)) \<noteq> []"
    and "identifyInTransaction s now input = Inr (s', r)"
  shows "\<exists>prim fresh.
           electPrimary (resolvedGroup s (normalizeEmail (email_in input)) (normalizePhone (phoneNumber_in input))) = Some prim \<and>
           find (\<lambda>c. id_of c = id_of prim) (rootedGroup (id_of prim) s') = Some fresh \<and>
           id_of fresh = id_of prim \<and>
           s' = finalStore s (normalizeEmail (email_in input)) (normalizePhone (phoneNumber_in input)) prim now \<and>
           r = buildResponse fresh (rootedGroup (id_of prim) s')"
proof -
  let ?e = "normalizeEmail (email_in input)" and ?p = "normalizePhone (phoneNumber_in input)"
  obtain prim fresh where el: "electPrimary (resolvedGroup s ?e ?p) = Some prim"
    and fnd: "find (\<lambda>c. id_of c = id_of prim) (rootedGroup (id_of prim) (finalStore s ?e ?p prim now)) = Some fresh"
    and fr: "id_of fresh = id_of prim"
    and res: "identifyInTransaction s now input =
             (if insertRefused s ?e ?p then Inl (KnownRequestError ''P2002'')
              else Inr (finalStore s ?e ?p prim now,
                        buildResponse fresh (rootedGroup (id_of prim) (finalStore s ?e ?p prim now))))"
    using identify_matched[OF assms(1), of now] by blast
  have "\<not> insertRefused s ?e ?p"
    using assms(2) res by (auto split: if_splits)
  then have "Inr (s', r) = (Inr (finalStore s ?e ?p prim now,
      buildResponse fresh (rootedGroup (id_of prim) (finalStore s ?e ?p prim now))) :: failure + Store \<times> IdentifyResponse)"
    using trans[OF assms(2)[symmetric] res] by simp
  then have "s' = finalStore s ?e ?p prim now"
    and "r = buildResponse fresh (rootedGroup (id_of prim) (finalStore s ?e ?p prim now))"
    by (simp_all only: sum.inject prod.inject)
  then show ?thesis using el fnd fr by blast
qed

lemma identify_unmatched:
  assumes "directMatches s (normalizeEmail (email_in input)) (normalizePhone (phoneNumber_in input)) = []"
  shows "identifyInTransaction s now input =
     (if emailTaken (normalizeEmail (email_in input)) s then Inl (KnownRequestError ''P2002'')
      else Inr (s\<lparr>rows := rows s @ [\<lparr>id_of = nextId s, email = normalizeEmail (email_in input),
                phoneNumber = normalizePhone (phoneNumber_in input), linkPrecedence = primary,
                linkedId = None, createdAt = now, deletedAt = None\<rparr>], nextId := nextId s + 1\<rparr>,
          \<lparr>primaryContatctId = nextId s,
           emails = (case normalizeEmail (email_in input) of None \<Rightarrow> [] | Some x \<Rightarrow> [x]),
           phoneNumbers = (case normalizePhone (phoneNumber_in input) of None \<Rightarrow> [] | Some x \<Rightarrow> [x]),
           secondaryContactIds = []\<rparr>))"
proof -
  have e: "truthy (normalizeEmail v) \<longleftrightarrow> normalizeEmail v \<noteq> None" for v
    by (auto simp: truthy_def normalizeEmail_def orUndefined_def split: option.splits)
  have p: "truthy (normalizePhone v) \<longleftrightarrow> normalizePhone v \<noteq> None" for v
    by (auto simp: truthy_def normalizePhone_def orUndefined_def split: option.splits)
  show ?thesis
    using assms by (auto simp: identifyInTransaction_def Let_def create_def e p split: option.splits)
qed

lemma identify_unmatched_returns:
  assumes "directMatches s (normalizeEmail (email_in input)) (normalizePhone (phoneNumber_in input)) = []"
    and "identifyInTransaction s now input = Inr (s', r)"
  shows "s' = s\<lparr>rows := rows s @ [\<lparr>id_of = nextId s, email = normalizeEmail (email_in input),
                phoneNumber = normalizePhone (phoneNumber_in input), linkPrecedence = primary,
                linkedId = None, createdAt = now, deletedAt = None\<rparr>], nextId := nextId s + 1\<rparr> \<and>
         r = \<lparr>primaryContatctId = nextId s,
           emails = (case normalizeEmail (email_in input) of None \<Rightarrow> [] | Some x \<Rightarrow> [x]),
           phoneNumbers = (case normalizePhone (phoneNumber_in input) of None \<Rightarrow> [] | Some x \<Rightarrow> [x]),
           secondaryContactIds = []\<rparr>"
  using assms(2) unfolding identify_unmatched[OF assms(1)] by (simp split: if_splits)

lemma other_primary_iff:
  assumes ids: "distinct (map id_of (rows s))"
    and grp: "set grp \<subseteq> set (rows s)" and prim: "prim \<in> set grp" and c: "c \<in> set (rows s)"
  shows "id_of c \<in> id_of ` set (otherPrimaries prim grp) \<longleftrightarrow>
         c \<in> set grp \<and> c \<noteq> prim \<and> linkPrecedence c = primary"
proof
  assume "id_of c \<in> id_of ` set (otherPrimaries prim grp)"
  then obtain d where d: "d \<in> set grp" "id_of d \<noteq> id_of prim" "linkPrecedence d = primary" "id_of d = id_of c"
    by (auto simp: otherPrimaries_def)
  then have "d = c" using same_row[OF ids _ c] grp by auto
  then show "c \<in> set grp \<and> c \<noteq> prim \<and> linkPrecedence c = primary" using d by auto
next
  assume a: "c \<in> set grp \<and> c \<noteq> prim \<and> linkPrecedence c = primary"
  then have "id_of c \<noteq> id_of prim"
    using same_row[OF ids c, of prim] grp prim by auto
  then have "c \<in> set (otherPrimaries prim grp)" using a by (simp add: otherPrimaries_def)
  then show "id_of c \<in> id_of ` set (otherPrimaries prim grp)" by blast
qed

lemma elected_kept:
  "id_of prim \<notin> id_of ` set (otherPrimaries prim grp)"
  by (auto simp: otherPrimaries_def)

lemma rows_finalStore:
  "rows (finalStore s e p prim now) =
     map (\<lambda>c. if id_of c \<in> id_of ` set (otherPrimaries prim (resolvedGroup s e p))
               then demote (id_of prim) c else c) (rows s) @
     (if shouldCreateSecondary e p (rootedGroup (id_of prim) (demoteOthers prim (resolvedGroup s e p) s))
      then [newSecondary e p (id_of prim) now (nextId s)] else [])"
  by (simp add: finalStore_def rows_withSecondary rows_demoteOthers nextId_demoteOthers)

lemma truthy_normalizeEmail: "truthy (normalizeEmail v) \<longleftrightarrow> normalizeEmail v \<noteq> None"
  by (auto simp: truthy_def normalizeEmail_def orUndefined_def split: option.splits)

lemma truthy_normalizePhone: "truthy (normalizePhone v) \<longleftrightarrow> normalizePhone v \<noteq> None"
  by (auto simp: truthy_def normalizePhone_def orUndefined_def split: option.splits)

lemma isIn_existingEmails: "isIn v (existingEmails g) \<longleftrightarrow> (\<exists>x. v = Some x \<and> x \<in> normalizedEmailsOf g)"
  by (cases v) (force simp: isIn_def existingEmails_def normalizedEmailsOf_def split: option.splits)+

lemma isIn_existingPhones: "isIn v (existingPhones g) \<longleftrightarrow> (\<exists>x. v = Some x \<and> x \<in> normalizedPhonesOf g)"
  by (cases v) (force simp: isIn_def existingPhones_def normalizedPhonesOf_def split: option.splits)+

lemma shouldCreateSecondary_iff:
  "shouldCreateSecondary (normalizeEmail ve) (normalizePhone vp) g \<longleftrightarrow>
     (\<exists>x. normalizeEmail ve = Some x \<and> x \<notin> normalizedEmailsOf g) \<or>
     (\<exists>x. normalizePhone vp = Some x \<and> x \<notin> normalizedPhonesOf g)"
  unfolding shouldCreateSecondary_def truthy_normalizeEmail truthy_normalizePhone
    isIn_existingEmails isIn_existingPhones
  by auto

section \<open>The order of the response\<close>

lemma set_firsts [simp]: "set (firsts xs) = set xs"
  by (induction xs) auto

lemma distinct_firsts [simp]: "distinct (firsts xs)"
  by (induction xs) auto

lemma pushUnseen_firsts:
  "pushUnseen xs acc = acc @ filter (\<lambda>y. y \<notin> set acc) (firsts xs)"
proof (induction xs arbitrary: acc)
  case Nil
  then show ?case by (simp add: pushUnseen_def)
next
  case (Cons x xs)
  have step: "pushUnseen (x # xs) acc = pushUnseen xs (if x \<in> set acc then acc else acc @ [x])"
    by (simp add: pushUnseen_def)
  show ?case
  proof (cases "x \<in> set acc")
    case True
    have "filter (\<lambda>y. y \<notin> set acc) (filter (\<lambda>y. y \<noteq> x) (firsts xs)) = filter (\<lambda>y. y \<notin> set acc) (firsts xs)"
      using True by (auto intro: filter_cong)
    then show ?thesis using True step Cons.IH[of acc] by simp
  next
    case False
    have "filter (\<lambda>y. y \<notin> set (acc @ [x])) (firsts xs)
          = filter (\<lambda>y. y \<notin> set acc) (filter (\<lambda>y. y \<noteq> x) (firsts xs))"
      by (auto intro: filter_cong)
    then show ?thesis using False step Cons.IH[of "acc @ [x]"] by simp
  qed
qed

lemma firstCarried_Cons_same:
  assumes "\<forall>d \<in> set cs. createdAt c \<le> createdAt d" "field c = Some x"
  shows "firstCarried field (c # cs) x = createdAt c"
proof -
  have "Min (createdAt ` {d \<in> set (c # cs). field d = Some x}) = createdAt c"
  proof (rule Min_eqI)
    show "finite (createdAt ` {d \<in> set (c # cs). field d = Some x})" by simp
    show "createdAt c \<in> createdAt ` {d \<in> set (c # cs). field d = Some x}"
      using assms(2) by auto
    fix y assume "y \<in> createdAt ` {d \<in> set (c # cs). field d = Some x}"
    then show "createdAt c \<le> y" using assms(1) by auto
  qed
  then show ?thesis by (simp add: firstCarried_def)
qed

lemma firstCarried_Cons_other:
  assumes "field c \<noteq> Some x"
  shows "firstCarried field (c # cs) x = firstCarried field cs x"
proof -
  have "{d \<in> set (c # cs). field d = Some x} = {d \<in> set cs. field d = Some x}"
    using assms by auto
  then show ?thesis by (simp add: firstCarried_def)
qed

lemma firstCarried_lower:
  assumes "\<forall>d \<in> set cs. t \<le> createdAt d" "\<exists>d \<in> set cs. field d = Some x"
  shows "t \<le> firstCarried field cs x"
proof -
  have "finite (createdAt ` {d \<in> set cs. field d = Some x})" by simp
  moreover have "createdAt ` {d \<in> set cs. field d = Some x} \<noteq> {}" using assms(2) by auto
  ultimately have "Min (createdAt ` {d \<in> set cs. field d = Some x}) \<in> createdAt ` {d \<in> set cs. field d = Some x}"
    by (rule Min_in)
  then show ?thesis using assms(1) by (auto simp: firstCarried_def)
qed

lemma sorted_firsts:
  assumes "sorted (map createdAt cs)" "\<forall>c \<in> set cs. field c \<noteq> None"
  shows "sorted (map (firstCarried field cs) (firsts (map (\<lambda>c. the (field c)) cs)))"
  using assms
proof (induction cs)
  case Nil
  then show ?case by simp
next
  case (Cons c cs)
  obtain x where x: "field c = Some x" using Cons.prems(2) by auto
  have le: "\<forall>d \<in> set cs. createdAt c \<le> createdAt d" using Cons.prems(1) by simp
  let ?vs = "firsts (map (\<lambda>c. the (field c)) cs)"
  let ?rest = "filter (\<lambda>y. y \<noteq> x) ?vs"
  have IH: "sorted (map (firstCarried field cs) ?vs)"
    using Cons by simp
  have same: "map (firstCarried field (c # cs)) ?rest = map (firstCarried field cs) ?rest"
  proof (rule map_cong[OF refl])
    fix y assume "y \<in> set ?rest"
    then have "field c \<noteq> Some y" using x by auto
    then show "firstCarried field (c # cs) y = firstCarried field cs y"
      by (rule firstCarried_Cons_other)
  qed
  have "sorted (map (firstCarried field cs) ?rest)"
    using IH by (simp add: sorted_filter)
  moreover have "createdAt c \<le> firstCarried field cs y" if "y \<in> set ?rest" for y
  proof (rule firstCarried_lower[OF le])
    from that have "y \<in> set (map (\<lambda>c. the (field c)) cs)" by simp
    then obtain d where "d \<in> set cs" "y = the (field d)" by auto
    then show "\<exists>d \<in> set cs. field d = Some y" using Cons.prems(2) by force
  qed
  ultimately have srt: "sorted (createdAt c # map (firstCarried field cs) ?rest)"
    by auto
  have hd: "firstCarried field (c # cs) x = createdAt c"
    using le x by (rule firstCarried_Cons_same[where field = field and c = c and cs = cs and x = x])
  have "firsts (map (\<lambda>c. the (field c)) (c # cs)) = x # ?rest"
    using x by simp
  then have "map (firstCarried field (c # cs)) (firsts (map (\<lambda>c. the (field c)) (c # cs)))
        = createdAt c # map (firstCarried field cs) ?rest"
    by (simp only: list.map same hd)
  then show ?case using srt by (simp only:)
qed

lemma collectValues_ordered:
  assumes srt: "sorted (map createdAt g)" and fresh: "fresh \<in> set g"
  shows "orderedValues field fresh g (collectValues field fresh g)"
proof -
  let ?first = "if truthy (field fresh) then [the (field fresh)] else []"
  let ?cs = "filter (\<lambda>c. truthy (field c) \<and> the (field c) \<notin> set ?first) g"
  let ?others = "map (\<lambda>c. (the (field c), createdAt c)) ?cs"
  let ?vals = "map (\<lambda>c. the (field c)) ?cs"
  have "sorted (map createdAt ?cs)"
    using srt by (rule sorted_filter)
  then have "sorted (map snd ?others)" by (simp add: comp_def)
  then have "sort_key snd ?others = ?others" by (rule sort_key_id_if_sorted)
  then have cv: "collectValues field fresh g = pushUnseen ?vals ?first"
    by (simp add: collectValues_def Let_def comp_def)
  have notin: "\<forall>y \<in> set (firsts ?vals). y \<notin> set ?first" by auto
  have "filter (\<lambda>y. y \<notin> set ?first) (firsts ?vals) = firsts ?vals"
    using notin by (simp only: filter_id_conv) 
  then have eq: "collectValues field fresh g = ?first @ firsts ?vals"
    using cv by (simp add: pushUnseen_firsts)
  have nn: "\<forall>c \<in> set ?cs. field c \<noteq> None" by (auto simp: truthy_def split: option.splits)
  have s1: "sorted (map (firstCarried field ?cs) (firsts ?vals))"
    by (rule sorted_firsts[OF \<open>sorted (map createdAt ?cs)\<close> nn])
  have me: "map (firstCarried field g) (firsts ?vals) = map (firstCarried field ?cs) (firsts ?vals)"
  proof (rule map_cong[OF refl])
    fix y assume "y \<in> set (firsts ?vals)"
    then obtain c where c: "c \<in> set ?cs" "y = the (field c)" by auto
    then have y: "y \<noteq> []" "y \<notin> set ?first" by (auto simp: truthy_def split: option.splits)
    have "{d \<in> set g. field d = Some y} = {d \<in> set ?cs. field d = Some y}"
      using y by (auto simp: truthy_def)
    then show "firstCarried field g y = firstCarried field ?cs y"
      by (simp add: firstCarried_def)
  qed
  have s2: "sorted (map (firstCarried field g) (firsts ?vals))"
    unfolding me by (rule s1)
  have d: "distinct (?first @ firsts ?vals)" using notin by auto
  have "set ?vals = {x. x \<noteq> [] \<and> x \<notin> set ?first \<and> (\<exists>c \<in> set g. field c = Some x)}"
    (is "?L = ?R")
  proof (intro equalityI subsetI)
    fix y assume "y \<in> ?L"
    then obtain c where "c \<in> set g" "truthy (field c)" "the (field c) \<notin> set ?first" "y = the (field c)"
      by auto
    then show "y \<in> ?R" by (auto simp: truthy_def split: option.splits)
  next
    fix y assume "y \<in> ?R"
    then obtain c where c: "c \<in> set g" "field c = Some y" "y \<noteq> []" "y \<notin> set ?first" by auto
    then have "c \<in> set ?cs" by (simp add: truthy_def)
    then have "(\<lambda>c. the (field c)) c \<in> (\<lambda>c. the (field c)) ` set ?cs" by (rule imageI)
    then show "y \<in> ?L" using c(2) by (simp only: set_map option.sel)
  qed
  moreover have "set ?first \<subseteq> {x. x \<noteq> [] \<and> (\<exists>c \<in> set g. field c = Some x)}"
    using fresh by (auto simp: truthy_def split: option.splits)
  ultimately have st: "set (?first @ firsts ?vals) = {x. x \<noteq> [] \<and> (\<exists>c \<in> set g. field c = Some x)}"
    by auto
  show ?thesis
    unfolding orderedValues_def eq using s2 d st by blast
qed

lemma sorted_rootedGroup: "sorted (map createdAt (rootedGroup pid s))"
  by (simp add: rootedGroup_def findMany_def)

section \<open>Invariants of a call\<close>

lemma nextId_finalStore:
  "nextId (finalStore s e p prim now) =
     nextId s + (if shouldCreateSecondary e p (rootedGroup (id_of prim) (demoteOthers prim (resolvedGroup s e p) s))
                 then 1 else 0)"
  by (simp add: finalStore_def withSecondary_def nextId_demoteOthers)

text \<open>The two shapes of the store after a call that returns.\<close>

lemma identify_step:
  assumes "identifyInTransaction s now input = Inr (s', r)"
  shows "(directMatches s (normalizeEmail (email_in input)) (normalizePhone (phoneNumber_in input)) = [] \<and>
          rows s' = rows s @ [\<lparr>id_of = nextId s, email = normalizeEmail (email_in input),
                phoneNumber = normalizePhone (phoneNumber_in input), linkPrecedence = primary,
                linkedId = None, createdAt = now, deletedAt = None\<rparr>] \<and> nextId s' = nextId s + 1) \<or>
         (directMatches s (normalizeEmail (email_in input)) (normalizePhone (phoneNumber_in input)) \<noteq> [] \<and>
          (\<exists>prim news.
            prim \<in> set (resolvedGroup s (normalizeEmail (email_in input)) (normalizePhone (phoneNumber_in input))) \<and>
            (\<forall>c \<in> set (resolvedGroup s (normalizeEmail (email_in input)) (normalizePhone (phoneNumber_in input))).
                createdAt prim \<le> createdAt c) \<and>
            rows s' = map (\<lambda>c. if id_of c \<in> id_of ` set (otherPrimaries prim
                                    (resolvedGroup s (normalizeEmail (email_in input)) (normalizePhone (phoneNumber_in input))))
                                then demote (id_of prim) c else c) (rows s) @ news \<and>
            (news = [] \<and> nextId s' = nextId s \<or>
             news = [newSecondary (normalizeEmail (email_in input)) (normalizePhone (phoneNumber_in input))
                       (id_of prim) now (nextId s)] \<and>
             (truthy (normalizeEmail (email_in input)) \<or> truthy (normalizePhone (phoneNumber_in input))) \<and>
             nextId s' = nextId s + 1)))"
proof (cases "directMatches s (normalizeEmail (email_in input)) (normalizePhone (phoneNumber_in input)) = []")
  case True
  show ?thesis
    using identify_unmatched_returns[OF True assms] True by simp
next
  case False
  let ?e = "normalizeEmail (email_in input)" and ?p = "normalizePhone (phoneNumber_in input)"
  let ?G = "resolvedGroup s ?e ?p"
  obtain prim where el: "electPrimary ?G = Some prim"
    and s': "s' = finalStore s ?e ?p prim now"
    using identify_matched_returns[OF False assms] by blast
  have pg: "prim \<in> set ?G" "\<forall>c \<in> set ?G. createdAt prim \<le> createdAt c"
    using elected_member[OF False] el by auto
  let ?sc = "shouldCreateSecondary ?e ?p (rootedGroup (id_of prim) (demoteOthers prim ?G s))"
  let ?news = "if ?sc then [newSecondary ?e ?p (id_of prim) now (nextId s)] else []"
  have r: "rows s' = map (\<lambda>c. if id_of c \<in> id_of ` set (otherPrimaries prim ?G)
                                then demote (id_of prim) c else c) (rows s) @ ?news"
    unfolding s' by (rule rows_finalStore)
  have n: "nextId s' = nextId s + (if ?sc then 1 else 0)"
    unfolding s' by (rule nextId_finalStore)
  have t: "truthy ?e \<or> truthy ?p" if ?sc
    using that by (auto simp: shouldCreateSecondary_def)
  have "?news = [] \<and> nextId s' = nextId s \<or>
        ?news = [newSecondary ?e ?p (id_of prim) now (nextId s)] \<and> (truthy ?e \<or> truthy ?p) \<and>
        nextId s' = nextId s + 1"
    using n t by auto
  then show ?thesis using pg r False by blast
qed

lemma keyed_step:
  assumes k: "keyed s" and run: "identifyInTransaction s now input = Inr (s', r)"
  shows "keyed s'"
proof -
  let ?e = "normalizeEmail (email_in input)" and ?p = "normalizePhone (phoneNumber_in input)"
  let ?G = "resolvedGroup s ?e ?p"
  from identify_step[OF run] consider
    (created) "rows s' = rows s @ [\<lparr>id_of = nextId s, email = ?e, phoneNumber = ?p, linkPrecedence = primary,
                linkedId = None, createdAt = now, deletedAt = None\<rparr>]" "nextId s' = nextId s + 1"
  | (matched) prim news where "prim \<in> set ?G"
      "rows s' = map (\<lambda>c. if id_of c \<in> id_of ` set (otherPrimaries prim ?G)
                                then demote (id_of prim) c else c) (rows s) @ news"
      "news = [] \<and> nextId s' = nextId s \<or>
       news = [newSecondary ?e ?p (id_of prim) now (nextId s)] \<and> nextId s' = nextId s + 1"
    by blast
  then show ?thesis
  proof cases
    case created
    have "distinct (map id_of (rows s'))"
      using k unfolding keyed_def created by auto
    moreover have "\<forall>c \<in> set (rows s'). id_of c < nextId s'"
      using k unfolding keyed_def created by auto
    moreover have "\<forall>c \<in> set (rows s'). \<forall>j. linkedId c = Some j \<longrightarrow> j \<in> id_of ` set (rows s')"
      using k unfolding keyed_def created by auto
    ultimately show ?thesis unfolding keyed_def by simp
  next
    case matched
    let ?f = "\<lambda>c. if id_of c \<in> id_of ` set (otherPrimaries prim ?G) then demote (id_of prim) c else c"
    note pg = matched(1) and r = matched(2) and nw = matched(3)
    have sub: "set ?G \<subseteq> set (rows s)"
      using resolvedGroup_live[of s ?e ?p] by (auto simp: liveRows_def)
    have ids: "map id_of (map ?f (rows s)) = map id_of (rows s)" by (simp add: comp_def)
    have pr: "prim \<in> set (rows s)" using pg sub by auto
    define old where "old = map ?f (rows s)"
    have r': "rows s' = old @ news" using r by (simp add: old_def)
    have "set (map id_of old) = set (map id_of (rows s))"
      unfolding old_def ids ..
    then have idset: "id_of ` set old = id_of ` set (rows s)"
      by (simp only: set_map)
    have d1: "distinct (map id_of old)"
      unfolding old_def ids using k by (simp add: keyed_def)
    have b1: "\<forall>c \<in> set old. id_of c < nextId s"
      unfolding old_def using k by (auto simp: keyed_def)
    have lk: "j \<in> id_of ` set (rows s)" if "c \<in> set (rows s)" "linkedId (?f c) = Some j" for c j
      using that k pr by (auto simp: keyed_def split: if_splits)
    have b2: "\<forall>c \<in> set old. \<forall>j. linkedId c = Some j \<longrightarrow> j \<in> id_of ` set old"
      unfolding idset unfolding old_def using lk by auto
    have pid: "id_of prim \<in> id_of ` set old" unfolding idset using pr by simp
    from nw show ?thesis
    proof (elim disjE conjE)
      assume "news = []" "nextId s' = nextId s"
      then show ?thesis
        using d1 b1 b2 unfolding keyed_def r' by simp
    next
      assume nn: "news = [newSecondary ?e ?p (id_of prim) now (nextId s)]" "nextId s' = nextId s + 1"
      have e1: "distinct (map id_of (rows s'))"
        unfolding r' nn using d1 b1 by (auto simp: newSecondary_def)
      have e3: "\<forall>c \<in> set (rows s'). id_of c < nextId s'"
        unfolding r' nn using b1 by (auto simp: newSecondary_def)
      have e4: "\<forall>c \<in> set (rows s'). \<forall>j. linkedId c = Some j \<longrightarrow> j \<in> id_of ` set (rows s')"
        unfolding r' nn using b2 pid by (auto simp: newSecondary_def)
      show ?thesis unfolding keyed_def using e1 e3 e4 by simp
    qed
  qed
qed

lemma storedNormalized_step:
  assumes n: "storedNormalized s" and run: "identifyInTransaction s now input = Inr (s', r)"
  shows "storedNormalized s'"
proof -
  let ?e = "normalizeEmail (email_in input)" and ?p = "normalizePhone (phoneNumber_in input)"
  let ?G = "resolvedGroup s ?e ?p"
  from identify_step[OF run] consider
    (created) "rows s' = rows s @ [\<lparr>id_of = nextId s, email = ?e, phoneNumber = ?p, linkPrecedence = primary,
                linkedId = None, createdAt = now, deletedAt = None\<rparr>]"
  | (matched) prim news where
      "rows s' = map (\<lambda>c. if id_of c \<in> id_of ` set (otherPrimaries prim ?G)
                                then demote (id_of prim) c else c) (rows s) @ news"
      "news = [] \<or> news = [newSecondary ?e ?p (id_of prim) now (nextId s)]"
    by blast
  then show ?thesis
  proof cases
    case created
    show ?thesis
      using n unfolding storedNormalized_def created
      by (auto simp: normalizeEmail_idem normalizePhone_idem)
  next
    case matched
    let ?f = "\<lambda>c. if id_of c \<in> id_of ` set (otherPrimaries prim ?G) then demote (id_of prim) c else c"
    define old where "old = map ?f (rows s)"
    have r': "rows s' = old @ news" using matched(1) by (simp add: old_def)
    have old: "deletedAt c = None \<and> normalizeEmail (email c) = email c \<and>
               normalizePhone (phoneNumber c) = phoneNumber c" if "c \<in> set old" for c
    proof -
      from that obtain c0 where c0: "c0 \<in> set (rows s)" "c = ?f c0" by (auto simp: old_def)
      have "deletedAt c = deletedAt c0" "email c = email c0" "phoneNumber c = phoneNumber c0"
        using c0(2) by simp_all
      then show ?thesis using n c0(1) by (simp add: storedNormalized_def)
    qed
    have new: "deletedAt c = None \<and> normalizeEmail (email c) = email c \<and>
               normalizePhone (phoneNumber c) = phoneNumber c" if "c \<in> set news" for c
      using matched(2) that by (auto simp: newSecondary_def normalizeEmail_idem normalizePhone_idem)
    have "deletedAt c = None \<and> normalizeEmail (email c) = email c \<and>
               normalizePhone (phoneNumber c) = phoneNumber c" if "c \<in> set (old @ news)" for c
      using that old new by auto
    then show ?thesis
      unfolding storedNormalized_def r' by blast
  qed
qed

lemma othersLinked_step:
  assumes k: "keyed s" and li: "othersLinked s" and run: "identifyInTransaction s now input = Inr (s', r)"
  shows "othersLinked s'"
proof -
  let ?e = "normalizeEmail (email_in input)" and ?p = "normalizePhone (phoneNumber_in input)"
  let ?G = "resolvedGroup s ?e ?p"
  from identify_step[OF run] consider
    (created) "rows s' = rows s @ [\<lparr>id_of = nextId s, email = ?e, phoneNumber = ?p, linkPrecedence = primary,
                linkedId = None, createdAt = now, deletedAt = None\<rparr>]"
  | (matched) prim news where "prim \<in> set ?G"
      "rows s' = map (\<lambda>c. if id_of c \<in> id_of ` set (otherPrimaries prim ?G)
                                then demote (id_of prim) c else c) (rows s) @ news"
      "news = [] \<or> news = [newSecondary ?e ?p (id_of prim) now (nextId s)]"
    by blast
  then show ?thesis
  proof cases
    case created
    show ?thesis
      using li unfolding othersLinked_def created by auto
  next
    case matched
    let ?f = "\<lambda>c. if id_of c \<in> id_of ` set (otherPrimaries prim ?G) then demote (id_of prim) c else c"
    note pg = matched(1) and r = matched(2) and nw = matched(3)
    define old where "old = map ?f (rows s)"
    have r': "rows s' = old @ news" using r by (simp add: old_def)
    have sub: "set ?G \<subseteq> set (rows s)"
      using resolvedGroup_live[of s ?e ?p] by (auto simp: liveRows_def)
    have pr: "prim \<in> set (rows s)" using pg sub by auto
    have keep: "\<exists>d' \<in> set old. id_of d' = id_of d" if "d \<in> set (rows s)" for d
    proof -
      have "?f d \<in> set old" using that by (simp add: old_def)
      moreover have "id_of (?f d) = id_of d" by simp
      ultimately show ?thesis by blast
    qed
    have oldok: "(linkPrecedence c' = primary \<longleftrightarrow> linkedId c' = None) \<and>
        (\<forall>j. linkedId c' = Some j \<longrightarrow> j \<noteq> id_of c' \<and> (\<exists>d \<in> set old. id_of d = j))"
      if "c' \<in> set old" for c'
    proof -
      from that obtain c where c: "c \<in> set (rows s)" "c' = ?f c" by (auto simp: old_def)
      show ?thesis
      proof (cases "id_of c \<in> id_of ` set (otherPrimaries prim ?G)")
        case True
        then have c': "c' = demote (id_of prim) c" using c by simp
        have "id_of c \<noteq> id_of prim" using True by (auto simp: otherPrimaries_def)
        then show ?thesis using c' keep[OF pr] by auto
      next
        case False
        then have c': "c' = c" using c by simp
        have a: "linkPrecedence c = primary \<longleftrightarrow> linkedId c = None"
          using li c(1) by (simp add: othersLinked_def)
        have b: "j \<noteq> id_of c \<and> (\<exists>d \<in> set old. id_of d = j)" if lj: "linkedId c = Some j" for j
        proof -
          obtain d where "d \<in> set (rows s)" "id_of d = j" "j \<noteq> id_of c"
            using li c(1) lj by (auto simp: othersLinked_def)
          then show ?thesis using keep[of d] by auto
        qed
        show ?thesis using a b c' by simp
      qed
    qed
    have newok: "(linkPrecedence c' = primary \<longleftrightarrow> linkedId c' = None) \<and>
        (\<forall>j. linkedId c' = Some j \<longrightarrow> j \<noteq> id_of c' \<and> (\<exists>d \<in> set old. id_of d = j))"
      if "c' \<in> set news" for c'
    proof -
      from that nw have c': "c' = newSecondary ?e ?p (id_of prim) now (nextId s)" by auto
      have "id_of prim < nextId s" using k pr by (simp add: keyed_def)
      then show ?thesis using c' keep[OF pr] by (auto simp: newSecondary_def)
    qed
    have "(linkPrecedence c' = primary \<longleftrightarrow> linkedId c' = None) \<and>
        (\<forall>j. linkedId c' = Some j \<longrightarrow> j \<noteq> id_of c' \<and> (\<exists>d \<in> set (old @ news). id_of d = j))"
      if "c' \<in> set (old @ news)" for c'
    proof -
      have "c' \<in> set old \<or> c' \<in> set news" using that by simp
      then have "(linkPrecedence c' = primary \<longleftrightarrow> linkedId c' = None) \<and>
        (\<forall>j. linkedId c' = Some j \<longrightarrow> j \<noteq> id_of c' \<and> (\<exists>d \<in> set old. id_of d = j))"
        using oldok newok by blast
      then show ?thesis by (metis Un_iff set_append)
    qed
    then show ?thesis
      unfolding othersLinked_def r' by blast
  qed
qed

section \<open>Clusters\<close>

lemma sharesValue_sym: "sharesValue c d \<Longrightarrow> sharesValue d c"
  by (auto simp: sharesValue_def)

lemma connected_rows:
  assumes "x \<in> connected sh s X"
  shows "x \<in> X \<or> (x \<in> set (rows s) \<and> deletedAt x = None)"
  using assms by (induction rule: connected.induct) auto

lemma connected_trans:
  assumes "c \<in> connected sh s {b}" and "b \<in> connected sh s X"
  shows "c \<in> connected sh s X"
  using assms
proof (induction rule: connected.induct)
  case (seed c)
  then show ?case by simp
next
  case (link c d)
  then show ?case by (auto intro: connected.link)
qed

lemma connected_sym:
  assumes sym: "\<And>x y. sh x y \<Longrightarrow> sh y x"
    and a: "a \<in> set (rows s)" "deletedAt a = None"
    and b: "b \<in> connected sh s {a}"
  shows "a \<in> connected sh s {b}"
  using b
proof (induction rule: connected.induct)
  case (seed c)
  then show ?case by (auto intro: connected.seed)
next
  case (link c d)
  have c: "c \<in> set (rows s)" "deletedAt c = None"
    using connected_rows[OF link(1)] a by auto
  have "d \<in> connected sh s {d}" by (auto intro: connected.seed)
  then have "c \<in> connected sh s {d}"
    using c sym[OF link(4)] by (rule connected.link)
  then show ?case using link.IH by (rule connected_trans[rotated])
qed

text \<open>
  The clusters after an update of the store that rewrites the rows of a closed set
  \<open>G\<close> without touching their values and adds rows that share values with rows of \<open>G\<close>
  only: a cluster outside \<open>G\<close> gains nothing, and what is reached from the rewritten
  rows and the new rows stays among them.
\<close>

lemma cluster_update_outside:
  assumes rows': "rows s' = map f (rows s) @ news"
    and live: "\<forall>c \<in> set (rows s). deletedAt c = None"
    and f: "\<And>c. email (f c) = email c \<and> phoneNumber (f c) = phoneNumber c"
    and closed: "\<And>x y. x \<in> G \<Longrightarrow> y \<in> set (rows s) \<Longrightarrow> sharesValue x y \<Longrightarrow> y \<in> G"
    and fG: "\<And>c. c \<in> set (rows s) \<Longrightarrow> c \<notin> G \<Longrightarrow> f c = c"
    and nw: "\<And>n c. n \<in> set news \<Longrightarrow> c \<in> set (rows s) \<Longrightarrow> sharesValue c n \<Longrightarrow> c \<in> G"
    and c: "c \<in> set (rows s)" "c \<notin> G"
    and x: "x \<in> connected sharesValue s' {c}"
  shows "x \<in> connected sharesValue s {c} \<and> x \<in> set (rows s) \<and> x \<notin> G"
  using x
proof (induction rule: connected.induct)
  case (seed x)
  then show ?case using c by (auto intro: connected.seed)
next
  case (link a d)
  then have a: "a \<in> connected sharesValue s {c}" "a \<in> set (rows s)" "a \<notin> G" by simp_all
  from link(2) rows' consider d0 where "d0 \<in> set (rows s)" "d = f d0" | "d \<in> set news" by auto
  then show ?case
  proof cases
    case 1
    have sh: "sharesValue a d0" using link(4) 1(2) f by (simp add: sharesValue_def)
    have "d0 \<notin> G"
    proof
      assume "d0 \<in> G"
      then have "a \<in> G" using closed[OF _ a(2) sharesValue_sym[OF sh]] by simp
      then show False using a(3) by simp
    qed
    then have d: "d = d0" using 1 fG by simp
    have "d0 \<in> connected sharesValue s {c}"
      using a(1) 1(1) live sh by (auto intro: connected.link)
    then show ?thesis using d 1(1) \<open>d0 \<notin> G\<close> by simp
  next
    case 2
    then have "a \<in> G" using nw[OF _ a(2) link(4)] by simp
    then show ?thesis using a(3) by simp
  qed
qed

lemma cluster_update_inside:
  assumes rows': "rows s' = map f (rows s) @ news"
    and f: "\<And>c. email (f c) = email c \<and> phoneNumber (f c) = phoneNumber c"
    and closed: "\<And>x y. x \<in> G \<Longrightarrow> y \<in> set (rows s) \<Longrightarrow> sharesValue x y \<Longrightarrow> y \<in> G"
    and nw: "\<And>n c. n \<in> set news \<Longrightarrow> c \<in> set (rows s) \<Longrightarrow> sharesValue c n \<Longrightarrow> c \<in> G"
    and x0: "x0 \<in> f ` G \<union> set news"
    and x: "x \<in> connected sharesValue s' {x0}"
  shows "x \<in> f ` G \<union> set news"
  using x
proof (induction rule: connected.induct)
  case (seed x)
  then show ?case using x0 by simp
next
  case (link a d)
  from link(2) rows' consider d0 where "d0 \<in> set (rows s)" "d = f d0" | "d \<in> set news" by auto
  then show ?case
  proof cases
    case 1
    have "d0 \<in> G"
    proof (cases "a \<in> set news")
      case True
      have "sharesValue d0 a"
        using sharesValue_sym[OF link(4)] 1(2) f by (simp add: sharesValue_def)
      then show ?thesis using nw[OF True 1(1)] by simp
    next
      case False
      then obtain a0 where a0: "a0 \<in> G" "a = f a0" using link.IH by auto
      have "sharesValue a0 d0" using link(4) 1(2) a0(2) f by (simp add: sharesValue_def)
      then show ?thesis using closed[OF a0(1) 1(1)] by simp
    qed
    then show ?thesis using 1(2) by simp
  next
    case 2
    then show ?thesis by simp
  qed
qed

lemma one_primary_update:
  assumes rows': "rows s' = map f (rows s) @ news"
    and live: "\<forall>c \<in> set (rows s). deletedAt c = None"
    and f: "\<And>c. email (f c) = email c \<and> phoneNumber (f c) = phoneNumber c"
    and closed: "\<And>x y. x \<in> G \<Longrightarrow> y \<in> set (rows s) \<Longrightarrow> sharesValue x y \<Longrightarrow> y \<in> G"
    and fG: "\<And>c. c \<in> set (rows s) \<Longrightarrow> c \<notin> G \<Longrightarrow> f c = c"
    and nw: "\<And>n c. n \<in> set news \<Longrightarrow> c \<in> set (rows s) \<Longrightarrow> sharesValue c n \<Longrightarrow> c \<in> G"
    and one: "\<And>x y. x \<in> f ` G \<union> set news \<Longrightarrow> y \<in> f ` G \<union> set news \<Longrightarrow>
                linkPrecedence x = primary \<Longrightarrow> linkPrecedence y = primary \<Longrightarrow> x = y"
    and inv: "\<And>p q. p \<in> set (rows s) \<Longrightarrow> q \<in> connected sharesValue s {p} \<Longrightarrow>
                linkPrecedence p = primary \<Longrightarrow> linkPrecedence q = primary \<Longrightarrow> p = q"
    and p: "p \<in> set (rows s')" "linkPrecedence p = primary"
    and q: "q \<in> connected sharesValue s' {p}" "linkPrecedence q = primary"
  shows "p = q"
proof (cases "p \<in> f ` G \<union> set news")
  case True
  have "q \<in> f ` G \<union> set news"
    by (rule cluster_update_inside[OF rows' f closed nw True q(1)])
  then show ?thesis using one[OF True _ p(2) q(2)] by simp
next
  case False
  then obtain c where c: "c \<in> set (rows s)" "p = f c" "c \<notin> G"
    using p(1) rows' by auto
  then have pc: "p = c" using fG by simp
  have "q \<in> connected sharesValue s {c}"
    using cluster_update_outside[OF rows' live f closed fG nw c(1,3)] q(1) pc by simp
  then show ?thesis using inv[OF c(1)] p(2) q(2) pc by simp
qed


lemma findMany_Nil_iff: "findMany wh s = [] \<longleftrightarrow> (\<forall>c \<in> set (rows s). \<not> wh c)"
proof -
  have "sort_key createdAt xs = [] \<longleftrightarrow> xs = []" for xs :: "Contact list"
    using length_sort[of createdAt xs] by (metis length_0_conv)
  then show ?thesis by (simp add: findMany_def filter_empty_conv)
qed

lemma resolvedGroup_connected:
  assumes ids: "distinct (map id_of (rows s))"
  shows "set (resolvedGroup s e p) = connected sharesValue s (set (directMatches s e p))"
  unfolding set_resolvedGroup
  by (rule expandGroup_connected(1)[OF ids])
    (use directMatches_live[of s e p] in \<open>auto simp: liveRows_def directMatches_def intro: distinct_ids_findMany[OF ids]\<close>)

lemma shares_new_is_seed:
  assumes "sharesValue c (newSecondary e p pid now n)" "deletedAt c = None"
  shows "seedWhere e p c"
  using assms by (auto simp: sharesValue_def seedWhere_def newSecondary_def)

lemma one_primary_step:
  assumes k: "keyed s" and n: "storedNormalized s"
    and inv: "\<And>p q. p \<in> set (rows s) \<Longrightarrow> q \<in> connected sharesValue s {p} \<Longrightarrow>
                linkPrecedence p = primary \<Longrightarrow> linkPrecedence q = primary \<Longrightarrow> p = q"
    and run: "identifyInTransaction s now input = Inr (s', r)"
    and p: "p \<in> set (rows s')" "linkPrecedence p = primary"
    and q: "q \<in> connected sharesValue s' {p}" "linkPrecedence q = primary"
  shows "p = q"
proof -
  let ?e = "normalizeEmail (email_in input)" and ?p = "normalizePhone (phoneNumber_in input)"
  let ?G = "resolvedGroup s ?e ?p" and ?D = "directMatches s ?e ?p"
  have ids: "distinct (map id_of (rows s))" using k by (simp add: keyed_def)
  have live: "\<forall>c \<in> set (rows s). deletedAt c = None" using n by (simp add: storedNormalized_def)
  from identify_step[OF run] consider
    (created) "?D = []" "rows s' = rows s @ [\<lparr>id_of = nextId s, email = ?e, phoneNumber = ?p, linkPrecedence = primary,
                linkedId = None, createdAt = now, deletedAt = None\<rparr>]"
  | (matched) prim news where "prim \<in> set ?G"
      "rows s' = map (\<lambda>c. if id_of c \<in> id_of ` set (otherPrimaries prim ?G)
                                then demote (id_of prim) c else c) (rows s) @ news"
      "news = [] \<or> news = [newSecondary ?e ?p (id_of prim) now (nextId s)]"
    by blast
  then show ?thesis
  proof cases
    case created
    let ?N = "\<lparr>id_of = nextId s, email = ?e, phoneNumber = ?p, linkPrecedence = primary,
                linkedId = None, createdAt = now, deletedAt = None\<rparr>"
    have r': "rows s' = map (\<lambda>c. c) (rows s) @ [?N]" using created(2) by simp
    have nomatch: "\<not> seedWhere ?e ?p c" if "c \<in> set (rows s)" for c
      using created(1) that by (simp add: directMatches_def findMany_Nil_iff)
    show ?thesis
    proof (rule one_primary_update[where G = "{}" and f = "\<lambda>c. c", OF r' live _ _ _ _ _ inv p q])
      fix n c assume "n \<in> set [?N]" "c \<in> set (rows s)" "sharesValue c n"
      then have "seedWhere ?e ?p c"
        using live by (auto simp: sharesValue_def seedWhere_def)
      then show "c \<in> {}" using nomatch[OF \<open>c \<in> set (rows s)\<close>] by simp
    qed auto
  next
    case matched
    define f where "f = (\<lambda>c. if id_of c \<in> id_of ` set (otherPrimaries prim ?G) then demote (id_of prim) c else c)"
    note pg = matched(1) and nw = matched(3)
    have r': "rows s' = map f (rows s) @ news" using matched(2) by (simp add: f_def)
    have sub: "set ?G \<subseteq> set (rows s)"
      using resolvedGroup_live[of s ?e ?p] by (auto simp: liveRows_def)
    have Gset: "set ?G = connected sharesValue s (set ?D)"
      by (rule resolvedGroup_connected[OF ids])
    have DG: "set ?D \<subseteq> set ?G" unfolding Gset by (auto intro: connected.seed)
    have fv: "email (f c) = email c \<and> phoneNumber (f c) = phoneNumber c" for c
      by (simp add: f_def)
    have closed: "y \<in> set ?G" if "x \<in> set ?G" "y \<in> set (rows s)" "sharesValue x y" for x y
      using that live unfolding Gset by (auto intro: connected.link)
    have fG: "f c = c" if "c \<in> set (rows s)" "c \<notin> set ?G" for c
      using other_primary_iff[OF ids sub pg that(1)] that(2) by (simp add: f_def)
    have new: "c \<in> set ?G" if "n \<in> set news" "c \<in> set (rows s)" "sharesValue c n" for n c
    proof -
      have "n = newSecondary ?e ?p (id_of prim) now (nextId s)" using that(1) nw by auto
      then have "seedWhere ?e ?p c"
        using shares_new_is_seed that(2,3) live by simp
      then have "c \<in> set ?D" using that(2) by (simp add: directMatches_def set_findMany)
      then show ?thesis using DG by auto
    qed
    have isprim: "x = prim" if "x \<in> f ` set ?G \<union> set news" "linkPrecedence x = primary" for x
    proof -
      have "x \<notin> set news" using that(2) nw by (auto simp: newSecondary_def)
      then have "x \<in> f ` set ?G" using that(1) by simp
      then obtain c where c: "c \<in> set ?G" "x = f c" by (rule imageE)
      have cr: "c \<in> set (rows s)" using c(1) sub by auto
      have no: "id_of c \<notin> id_of ` set (otherPrimaries prim ?G)"
      proof
        assume "id_of c \<in> id_of ` set (otherPrimaries prim ?G)"
        then have "x = demote (id_of prim) c" using c(2) by (simp add: f_def)
        then show False using that(2) by simp
      qed
      then have xc: "x = c" using c(2) by (simp add: f_def)
      then have "c = prim"
        using other_primary_iff[OF ids sub pg cr] no c(1) that(2) by auto
      then show ?thesis using xc by simp
    qed
    show ?thesis
    proof (rule one_primary_update[where G = "set ?G" and f = f, OF r' live fv closed fG new _ inv p q])
      fix x y assume "x \<in> f ` set ?G \<union> set news" "y \<in> f ` set ?G \<union> set news"
        "linkPrecedence x = primary" "linkPrecedence y = primary"
      then show "x = y" using isprim by blast
    qed
  qed
qed

lemma normalized_sharesValue:
  assumes "normalizeEmail (email c) = email c" "normalizePhone (phoneNumber c) = phoneNumber c"
    and "normalizeEmail (email d) = email d" "normalizePhone (phoneNumber d) = phoneNumber d"
  shows "sharesNormalized c d \<longleftrightarrow> sharesValue c d"
proof -
  have "truthy (email c) \<longleftrightarrow> email c \<noteq> None"
    using truthy_normalizeEmail[of "email c"] assms(1) by simp
  moreover have "truthy (phoneNumber c) \<longleftrightarrow> phoneNumber c \<noteq> None"
    using truthy_normalizePhone[of "phoneNumber c"] assms(2) by simp
  ultimately show ?thesis
    using assms by (simp add: sharesNormalized_def sharesValue_def)
qed

lemma connected_normalized:
  assumes n: "storedNormalized s" and c: "c \<in> set (rows s)"
  shows "connected sharesNormalized s {c} = connected sharesValue s {c}"
proof -
  have eq: "sharesNormalized a d \<longleftrightarrow> sharesValue a d" if "a \<in> set (rows s)" "d \<in> set (rows s)" for a d
    using n that by (intro normalized_sharesValue) (simp_all add: storedNormalized_def)
  have 1: "x \<in> connected sharesValue s {c}" if "x \<in> connected sharesNormalized s {c}" for x
    using that
  proof (induction rule: connected.induct)
    case (seed x)
    then show ?case by (auto intro: connected.seed)
  next
    case (link a d)
    have "a \<in> set (rows s)" using connected_rows[OF link(1)] c by auto
    then have "sharesValue a d" using eq link(2,4) by simp
    then show ?case using link by (auto intro: connected.link)
  qed
  have 2: "x \<in> connected sharesNormalized s {c}" if "x \<in> connected sharesValue s {c}" for x
    using that
  proof (induction rule: connected.induct)
    case (seed x)
    then show ?case by (auto intro: connected.seed)
  next
    case (link a d)
    have "a \<in> set (rows s)" using connected_rows[OF link(1)] c by auto
    then have "sharesNormalized a d" using eq link(2,4) by simp
    then show ?case using link by (auto intro: connected.link)
  qed
  show ?thesis using 1 2 by blast
qed

lemma reachable_invariants:
  assumes "reachable s"
  shows "keyed s \<and> storedNormalized s \<and> othersLinked s \<and>
         (\<forall>p \<in> set (rows s). \<forall>q \<in> connected sharesValue s {p}.
            linkPrecedence p = primary \<longrightarrow> linkPrecedence q = primary \<longrightarrow> p = q)"
  using assms
proof (induction rule: reachable.induct)
  case init
  show ?case by (simp add: keyed_def storedNormalized_def othersLinked_def emptyStore_def)
next
  case (call s input now s' r)
  have "p = q" if "p \<in> set (rows s')" "q \<in> connected sharesValue s' {p}"
      "linkPrecedence p = primary" "linkPrecedence q = primary" for p q
    by (rule one_primary_step[OF _ _ _ call(3) that(1,3,2,4)]) (use call.IH in auto)
  then show ?case
    using call keyed_step storedNormalized_step othersLinked_step by blast
qed

lemma reachable_atMostOnePrimary:
  assumes "reachable s"
  shows "atMostOnePrimary s"
proof -
  have n: "storedNormalized s"
    and inv: "\<And>p q. p \<in> set (rows s) \<Longrightarrow> q \<in> connected sharesValue s {p} \<Longrightarrow>
                linkPrecedence p = primary \<Longrightarrow> linkPrecedence q = primary \<Longrightarrow> p = q"
    using reachable_invariants[OF assms] by auto
  have "p = q" if c: "c \<in> liveRows s" and p: "p \<in> connected sharesNormalized s {c}"
    and q: "q \<in> connected sharesNormalized s {c}"
    and pp: "linkPrecedence p = primary" and qp: "linkPrecedence q = primary" for c p q
  proof -
    have cr: "c \<in> set (rows s)" "deletedAt c = None" using c by (simp_all add: liveRows_def)
    have p': "p \<in> connected sharesValue s {c}" and q': "q \<in> connected sharesValue s {c}"
      using p q connected_normalized[OF n cr(1)] by simp_all
    have pr: "p \<in> set (rows s)" using connected_rows[OF p'] cr by auto
    have "c \<in> connected sharesValue s {p}"
      by (rule connected_sym[OF sharesValue_sym cr p'])
    then have "q \<in> connected sharesValue s {p}"
      using q' by (rule connected_trans[rotated])
    then show ?thesis using inv[OF pr _ pp qp] by simp
  qed
  then show ?thesis unfolding atMostOnePrimary_def by blast
qed


section \<open>The concrete stores are reachable\<close>

lemma twoPrimaries_reachable: "reachable twoPrimaries"
proof -
  let ?s1 = "\<lparr>rows = [twoPrim1], nextId = 2\<rparr>"
  have 1: "reachable ?s1"
  proof (rule reachable.call[OF reachable.init])
    show "validateInput \<lparr>email_in = Some ''a@x.com'', phoneNumber_in = None\<rparr> = None" by code_simp
    show "identifyInTransaction emptyStore 1 \<lparr>email_in = Some ''a@x.com'', phoneNumber_in = None\<rparr>
          = Inr (?s1, \<lparr>primaryContatctId = 1, emails = [''a@x.com''], phoneNumbers = [], secondaryContactIds = []\<rparr>)"
      by code_simp
  qed
  show ?thesis
  proof (rule reachable.call[OF 1])
    show "validateInput \<lparr>email_in = None, phoneNumber_in = Some ''100''\<rparr> = None" by code_simp
    show "identifyInTransaction ?s1 2 \<lparr>email_in = None, phoneNumber_in = Some ''100''\<rparr>
          = Inr (twoPrimaries, \<lparr>primaryContatctId = 2, emails = [], phoneNumbers = [''100''], secondaryContactIds = []\<rparr>)"
      by code_simp
  qed
qed

lemma mergedStore_reachable: "reachable mergedStore"
proof (rule reachable.call[OF twoPrimaries_reachable])
  show "validateInput bothValues = None" by code_simp
  show "identifyInTransaction twoPrimaries 3 bothValues
        = Inr (mergedStore, \<lparr>primaryContatctId = 1, emails = [''a@x.com''], phoneNumbers = [''100''], secondaryContactIds = [2]\<rparr>)"
    by code_simp
qed

lemma beforeChain_reachable: "reachable beforeChain"
proof -
  let ?s1 = "\<lparr>rows = [chain1], nextId = 2\<rparr>"
  let ?s2 = "\<lparr>rows = [chain1, chain2], nextId = 3\<rparr>"
  have 1: "reachable ?s1"
  proof (rule reachable.call[OF reachable.init])
    show "validateInput \<lparr>email_in = None, phoneNumber_in = Some ''100''\<rparr> = None" by code_simp
    show "identifyInTransaction emptyStore 1 \<lparr>email_in = None, phoneNumber_in = Some ''100''\<rparr>
          = Inr (?s1, \<lparr>primaryContatctId = 1, emails = [], phoneNumbers = [''100''], secondaryContactIds = []\<rparr>)"
      by code_simp
  qed
  have 2: "reachable ?s2"
  proof (rule reachable.call[OF 1])
    show "validateInput \<lparr>email_in = Some ''b@x.com'', phoneNumber_in = Some ''200''\<rparr> = None" by code_simp
    show "identifyInTransaction ?s1 2 \<lparr>email_in = Some ''b@x.com'', phoneNumber_in = Some ''200''\<rparr>
          = Inr (?s2, \<lparr>primaryContatctId = 2, emails = [''b@x.com''], phoneNumbers = [''200''], secondaryContactIds = []\<rparr>)"
      by code_simp
  qed
  show ?thesis
  proof (rule reachable.call[OF 2])
    show "validateInput \<lparr>email_in = Some ''c@x.com'', phoneNumber_in = Some ''200''\<rparr> = None" by code_simp
    show "identifyInTransaction ?s2 3 \<lparr>email_in = Some ''c@x.com'', phoneNumber_in = Some ''200''\<rparr>
          = Inr (beforeChain, \<lparr>primaryContatctId = 2, emails = [''b@x.com'', ''c@x.com''], phoneNumbers = [''200''],
                 secondaryContactIds = [3]\<rparr>)"
      by code_simp
  qed
qed

lemma chainStore_run:
  "identifyInTransaction beforeChain 4 chainMerge
     = Inr (chainStore, \<lparr>primaryContatctId = 1, emails = [''b@x.com''], phoneNumbers = [''100'', ''200''],
                         secondaryContactIds = [2]\<rparr>)"
  by code_simp

lemma chainStore_reachable: "reachable chainStore"
proof (rule reachable.call[OF beforeChain_reachable])
  show "validateInput chainMerge = None" by code_simp
  show "identifyInTransaction beforeChain 4 chainMerge
     = Inr (chainStore, \<lparr>primaryContatctId = 1, emails = [''b@x.com''], phoneNumbers = [''100'', ''200''],
                         secondaryContactIds = [2]\<rparr>)"
    by (rule chainStore_run)
qed

lemma merged2_alone: "connected sharesNormalized mergedStore {merged2} = {merged2}"
proof -
  have ne: "normalizePhone (Some ''100'') = Some ''100''" by code_simp
  have "x = merged2" if "x \<in> connected sharesNormalized mergedStore {merged2}" for x
    using that
  proof (induction rule: connected.induct)
    case (seed c)
    then show ?case by simp
  next
    case (link c d)
    then have "d = merged1 \<or> d = merged2" by (simp add: mergedStore_def)
    moreover have "\<not> sharesNormalized merged2 merged1"
      using ne by (simp add: sharesNormalized_def merged1_def merged2_def normalizeEmail_def normalizePhone_def)
    ultimately show ?case using link by auto
  qed
  then show ?thesis by (auto intro: connected.seed)
qed

section \<open>A second call with the same input\<close>

lemma collectValues_single:
  "collectValues field c [c] = (if truthy (field c) then [the (field c)] else [])"
  by (simp add: collectValues_def pushUnseen_def)

lemma insort_key_map:
  assumes "\<And>x. k (f x) = k x"
  shows "insort_key k (f a) (map f ys) = map f (insort_key k a ys)"
  by (induction ys) (simp_all add: assms)

lemma sort_key_map_same:
  assumes "\<And>x. k (f x) = k x"
  shows "sort_key k (map f xs) = map f (sort_key k xs)"
proof (induction xs)
  case Nil
  show ?case by simp
next
  case (Cons a xs)
  have "insort_key k (f a) (map f (sort_key k xs)) = map f (insort_key k a (sort_key k xs))"
    by (rule insort_key_map) (rule assms)
  then show ?case using Cons by simp
qed

lemma insort_key_append_last:
  assumes "k a \<le> k x"
  shows "insort_key k a (ys @ [x]) = insort_key k a ys @ [x]"
  using assms by (induction ys) auto

lemma sort_key_append_last:
  assumes "\<forall>y \<in> set xs. k y \<le> k x"
  shows "sort_key k (xs @ [x]) = sort_key k xs @ [x]"
  using assms by (induction xs) (simp_all add: insort_key_append_last)

lemma hd_expandGroup:
  assumes "g \<noteq> []"
  shows "expandGroup s g \<noteq> [] \<and> hd (expandGroup s g) = hd g"
proof -
  let ?I = "\<lambda>g'. g' \<noteq> [] \<and> hd g' = hd g"
  have "?I (expandGroup s g) \<and> findMany (expandWhere (expandGroup s g)) s = []"
    by (rule expandGroup_invariant[where I = ?I]) (use assms in auto)
  then show ?thesis by simp
qed

lemma find_in_filter:
  assumes "find P xs = Some y" "Q y"
  shows "find P (filter Q xs) = Some y"
  using assms by (induction xs) (auto split: if_splits)

lemma find_map_same:
  assumes "\<And>x. P (f x) = P x"
  shows "find P (map f xs) = map_option f (find P xs)"
  by (induction xs) (simp_all add: assms)

text \<open>
  Two runs of the expansion loop, on two stores, that stay in step: when every round
  of the second finds the image of what the first finds, the results are related as the
  starting groups are.
\<close>

lemma expandGroup_simulation:
  assumes "\<And>g g1. R g g1 \<Longrightarrow> findMany (expandWhere g1) s1 = map f (findMany (expandWhere g) s)"
    and "\<And>g g1. R g g1 \<Longrightarrow> findMany (expandWhere g) s \<noteq> [] \<Longrightarrow>
            R (g @ findMany (expandWhere g) s) (g1 @ map f (findMany (expandWhere g) s))"
    and "R g g1"
  shows "R (expandGroup s g) (expandGroup s1 g1)"
  using assms
proof (induction s g arbitrary: g1 rule: expandGroup.induct)
  case (1 s grp)
  have eq: "findMany (expandWhere g1) s1 = map f (findMany (expandWhere grp) s)"
    using "1.prems"(1,3) by blast
  show ?case
  proof (cases "findMany (expandWhere grp) s = []")
    case True
    then have "expandGroup s grp = grp" by (subst expandGroup.simps) simp
    moreover have "expandGroup s1 g1 = g1" using True eq by (subst expandGroup.simps) simp
    ultimately show ?thesis using "1.prems"(3) by simp
  next
    case False
    let ?nx = "findMany (expandWhere grp) s"
    have R': "R (grp @ ?nx) (g1 @ map f ?nx)"
      using "1.prems"(2,3) False by blast
    have "R (expandGroup s (grp @ ?nx)) (expandGroup s1 (g1 @ map f ?nx))"
      by (rule "1.IH"[OF refl False "1.prems"(1,2) R'])
    moreover have "expandGroup s grp = expandGroup s (grp @ ?nx)"
      using False by (subst expandGroup.simps) (simp add: Let_def)
    moreover have "expandGroup s1 g1 = expandGroup s1 (g1 @ map f ?nx)"
      using False eq by (subst expandGroup.simps) (simp add: Let_def)
    ultimately show ?thesis by simp
  qed
qed


text \<open>
  The expansion loop on the store after a call, from the same request: the rows that
  the call rewrote without touching their values come in the same order, and the row
  that the call created, which carries the values of the request, joins the seed matches.
\<close>

lemma expandGroup_after_call:
  assumes rows1: "rows s1 = map f (rows s) @ news"
    and ff: "\<And>c. id_of (f c) = id_of c \<and> deletedAt (f c) = deletedAt c \<and> email (f c) = email c \<and>
                  phoneNumber (f c) = phoneNumber c \<and> createdAt (f c) = createdAt c"
    and below: "\<forall>c \<in> set (rows s). id_of c < n"
    and nw: "news = [] \<or> news = [newSecondary e p pid now n] \<and> (truthy e \<or> truthy p)"
  shows "filter (\<lambda>x. id_of x \<noteq> n) (expandGroup s1 (directMatches s1 e p))
           = map f (expandGroup s (directMatches s e p))"
proof -
  let ?S = "newSecondary e p pid now n"
  let ?D = "directMatches s e p" and ?D1 = "directMatches s1 e p"
  define R where "R = (\<lambda>g g1. filter (\<lambda>x. id_of x \<noteq> n) g1 = map f g \<and> set news \<subseteq> set g1 \<and>
                              set ?D \<subseteq> set g \<and> set g1 \<subseteq> set (rows s1))"
  have fid [simp]: "id_of (f c) = id_of c" "deletedAt (f c) = deletedAt c" "email (f c) = email c"
    "phoneNumber (f c) = phoneNumber c" "createdAt (f c) = createdAt c" for c
    using ff[of c] by simp_all
  have newsS: "x = ?S \<and> (truthy e \<or> truthy p)" if "x \<in> set news" for x
    using nw that by auto
  have news_id: "id_of x = n" if "x \<in> set news" for x
    using newsS[OF that] by (simp add: newSecondary_def)
  have old_id: "id_of c \<noteq> n" if "c \<in> set (rows s)" for c
    using below that by auto
  have f_seed: "seedWhere e p (f c) = seedWhere e p c" for c
    by (simp add: seedWhere_def)
  have keep_old: "filter (\<lambda>x. id_of x \<noteq> n) (map f xs) = map f xs" if "set xs \<subseteq> set (rows s)" for xs
    using that old_id by (induction xs) auto
  have drop_new: "filter (\<lambda>x. id_of x \<noteq> n) news = []"
    using news_id by (simp add: filter_empty_conv)
  have memb: "set g1 = f ` set g \<union> set news" if "R g g1" for g g1
  proof -
    have a: "set (map f g) = {x \<in> set g1. id_of x \<noteq> n}"
      using that unfolding R_def by (metis set_filter)
    have "x \<in> f ` set g \<union> set news" if x: "x \<in> set g1" for x
    proof (cases "id_of x = n")
      case True
      have "x \<in> set (rows s1)" using \<open>R g g1\<close> x unfolding R_def by auto
      then have "x \<in> f ` set (rows s) \<or> x \<in> set news" using rows1 by auto
      moreover have "x \<notin> f ` set (rows s)"
      proof
        assume "x \<in> f ` set (rows s)"
        then obtain c where "c \<in> set (rows s)" "x = f c" by (rule imageE)
        then show False using old_id[of c] True by simp
      qed
      ultimately show ?thesis by simp
    next
      case False
      then show ?thesis using a x by auto
    qed
    moreover have "f ` set g \<subseteq> set g1" using a by auto
    moreover have "set news \<subseteq> set g1" using that unfolding R_def by simp
    ultimately show ?thesis by blast
  qed
  have ew: "expandWhere g1 (f c) = expandWhere g c" if r: "R g g1" and c: "c \<in> set (rows s)" for g g1 c
  proof -
    note m = memb[OF r]
    have DG: "set ?D \<subseteq> set g" using r unfolding R_def by simp
    have ids: "id_of c \<in> id_of ` set g1 \<longleftrightarrow> id_of c \<in> id_of ` set g"
      unfolding m using news_id old_id[OF c] by (auto simp: image_Un image_image)
    have seeded: "id_of c \<in> id_of ` set g" if "seedWhere e p c"
    proof -
      have "c \<in> set ?D" using that c by (simp add: directMatches_def set_findMany)
      then show ?thesis using DG by auto
    qed
    have em: "isIn (email c) (valuesOf email g1) \<longleftrightarrow>
              isIn (email c) (valuesOf email g) \<or> (news \<noteq> [] \<and> truthy e \<and> e = email c)"
    proof -
      have "(\<exists>x \<in> set news. truthy (email x) \<and> email x = email c) \<longleftrightarrow> (news \<noteq> [] \<and> truthy e \<and> e = email c)"
        using nw by (auto simp: newSecondary_def)
      then show ?thesis unfolding isIn_valuesOf m by (auto simp: bex_Un)
    qed
    have ph: "isIn (phoneNumber c) (valuesOf phoneNumber g1) \<longleftrightarrow>
              isIn (phoneNumber c) (valuesOf phoneNumber g) \<or> (news \<noteq> [] \<and> truthy p \<and> p = phoneNumber c)"
    proof -
      have "(\<exists>x \<in> set news. truthy (phoneNumber x) \<and> phoneNumber x = phoneNumber c)
              \<longleftrightarrow> (news \<noteq> [] \<and> truthy p \<and> p = phoneNumber c)"
        using nw by (auto simp: newSecondary_def)
      then show ?thesis unfolding isIn_valuesOf m by (auto simp: bex_Un)
    qed
    show ?thesis
    proof (cases "deletedAt c = None \<and> ((truthy e \<and> e = email c) \<or> (truthy p \<and> p = phoneNumber c))")
      case True
      then have "seedWhere e p c" by (auto simp: seedWhere_def)
      then have "id_of c \<in> id_of ` set g" by (rule seeded)
      then show ?thesis using ids by (simp add: expandWhere_def)
    next
      case False
      then show ?thesis using ids em ph by (auto simp: expandWhere_def)
    qed
  qed
  have step: "findMany (expandWhere g1) s1 = map f (findMany (expandWhere g) s)" if r: "R g g1" for g g1
  proof -
    have "\<not> expandWhere g1 x" if "x \<in> set news" for x
      using that r unfolding R_def by (auto simp: expandWhere_def)
    then have a: "filter (expandWhere g1) news = []" by (simp add: filter_empty_conv)
    have "filter (expandWhere g1) (map f (rows s)) = map f (filter (\<lambda>c. expandWhere g1 (f c)) (rows s))"
      by (simp add: filter_map comp_def)
    also have "\<dots> = map f (filter (expandWhere g) (rows s))"
      using ew[OF r] by (simp cong: filter_cong)
    finally have "filter (expandWhere g1) (rows s1) = map f (filter (expandWhere g) (rows s))"
      using a by (simp add: rows1)
    then show ?thesis
      by (simp add: findMany_def sort_key_map_same)
  qed
  have ext: "R (g @ findMany (expandWhere g) s) (g1 @ map f (findMany (expandWhere g) s))"
    if r: "R g g1" for g g1
  proof -
    let ?nx = "findMany (expandWhere g) s"
    have sub: "set ?nx \<subseteq> set (rows s)" by (auto simp: set_findMany)
    have "filter (\<lambda>x. id_of x \<noteq> n) (g1 @ map f ?nx) = map f (g @ ?nx)"
      using r keep_old[OF sub] unfolding R_def by simp
    moreover have "set (map f ?nx) \<subseteq> set (rows s1)" using sub rows1 by auto
    ultimately show ?thesis using r unfolding R_def by auto
  qed
  have base: "R ?D ?D1"
  proof -
    let ?X = "filter (seedWhere e p) (rows s)"
    have seedS: "seedWhere e p x" if "x \<in> set news" for x
      using newsS[OF that] by (auto simp: seedWhere_def newSecondary_def)
    then have fn: "filter (seedWhere e p) news = news" by (simp add: filter_id_conv)
    have "filter (seedWhere e p) (rows s1) = map f ?X @ news"
      using fn by (simp add: rows1 filter_map comp_def f_seed)
    then have D1: "?D1 = sort_key createdAt (map f ?X @ news)"
      by (simp add: directMatches_def findMany_def)
    have "filter (\<lambda>x. id_of x \<noteq> n) ?D1 = sort_key createdAt (filter (\<lambda>x. id_of x \<noteq> n) (map f ?X @ news))"
      unfolding D1 by (rule filter_sort)
    also have "\<dots> = sort_key createdAt (map f ?X)"
      using keep_old[of ?X] drop_new by simp
    also have "\<dots> = map f ?D"
      by (simp add: directMatches_def findMany_def sort_key_map_same)
    finally have "filter (\<lambda>x. id_of x \<noteq> n) ?D1 = map f ?D" .
    moreover have "set news \<subseteq> set ?D1" unfolding D1 by simp
    moreover have "set ?D1 \<subseteq> set (rows s1)" by (auto simp: directMatches_def set_findMany)
    ultimately show ?thesis unfolding R_def by simp
  qed
  have "R (expandGroup s ?D) (expandGroup s1 ?D1)"
    by (rule expandGroup_simulation[where R = R and f = f, OF step ext base])
  then show ?thesis unfolding R_def by simp
qed


lemma directMatches_after_call:
  assumes rows1: "rows s1 = map f (rows s) @ news"
    and ff: "\<And>c. id_of (f c) = id_of c \<and> deletedAt (f c) = deletedAt c \<and> email (f c) = email c \<and>
                  phoneNumber (f c) = phoneNumber c \<and> createdAt (f c) = createdAt c"
    and nw: "news = [] \<or> news = [newSecondary e p pid now n] \<and> (truthy e \<or> truthy p)"
    and clock: "\<forall>c \<in> set (rows s). createdAt c \<le> now"
  shows "directMatches s1 e p = map f (directMatches s e p) @ news"
proof -
  let ?X = "filter (seedWhere e p) (rows s)"
  have fc: "createdAt (f c) = createdAt c" for c using ff[of c] by simp
  have f_seed: "seedWhere e p (f c) = seedWhere e p c" for c
    using ff[of c] by (simp add: seedWhere_def)
  have "seedWhere e p x" if "x \<in> set news" for x
    using nw that by (auto simp: seedWhere_def newSecondary_def)
  then have fn: "filter (seedWhere e p) news = news" by (simp add: filter_id_conv)
  have "filter (seedWhere e p) (rows s1) = map f ?X @ news"
    using fn by (simp add: rows1 filter_map comp_def f_seed)
  then have D1: "directMatches s1 e p = sort_key createdAt (map f ?X @ news)"
    by (simp add: directMatches_def findMany_def)
  have srt: "sort_key createdAt (map f ?X) = map f (directMatches s e p)"
    by (simp add: directMatches_def findMany_def sort_key_map_same fc)
  from nw show ?thesis
  proof
    assume "news = []"
    then show ?thesis using D1 srt by simp
  next
    assume "news = [newSecondary e p pid now n] \<and> (truthy e \<or> truthy p)"
    then have n: "news = [newSecondary e p pid now n]" by simp
    have "\<forall>y \<in> set (map f ?X). createdAt y \<le> createdAt (newSecondary e p pid now n)"
      using clock by (auto simp: fc newSecondary_def)
    then have "sort_key createdAt (map f ?X @ [newSecondary e p pid now n])
                 = sort_key createdAt (map f ?X) @ [newSecondary e p pid now n]"
      by (rule sort_key_append_last)
    then show ?thesis using D1 srt n by simp
  qed
qed

lemma find_hd: "xs \<noteq> [] \<Longrightarrow> P (hd xs) \<Longrightarrow> find P xs = Some (hd xs)"
  by (cases xs) simp_all

lemma idempotent_created:
  assumes k: "keyed s"
    and valid: "validateInput input = None"
    and none: "directMatches s (normalizeEmail (email_in input)) (normalizePhone (phoneNumber_in input)) = []"
    and run: "identifyInTransaction s now1 input = Inr (s1, r1)"
  shows "identifyInTransaction s1 now2 input = Inr (s1, r1)"
proof -
  let ?e = "normalizeEmail (email_in input)" and ?p = "normalizePhone (phoneNumber_in input)"
  let ?N = "\<lparr>id_of = nextId s, email = ?e, phoneNumber = ?p, linkPrecedence = primary,
             linkedId = None, createdAt = now1, deletedAt = None\<rparr>"
  have s1: "s1 = s\<lparr>rows := rows s @ [?N], nextId := nextId s + 1\<rparr>"
    and r1: "r1 = \<lparr>primaryContatctId = nextId s,
           emails = (case ?e of None \<Rightarrow> [] | Some x \<Rightarrow> [x]),
           phoneNumbers = (case ?p of None \<Rightarrow> [] | Some x \<Rightarrow> [x]),
           secondaryContactIds = []\<rparr>"
    using identify_unmatched_returns[OF none run] by simp_all
  have rows1: "rows s1 = rows s @ [?N]" by (simp add: s1)
  have tr: "truthy ?e \<or> truthy ?p"
    using valid by (auto simp: validateInput_def Let_def truthy_normalizeEmail truthy_normalizePhone split: if_splits)
  have nomatch: "\<not> seedWhere ?e ?p c" if "c \<in> set (rows s)" for c
    using none that by (simp add: directMatches_def findMany_Nil_iff)
  have seedN: "seedWhere ?e ?p ?N"
    using tr by (simp add: seedWhere_def)
  have "filter (seedWhere ?e ?p) (rows s1) = [?N]"
    using nomatch seedN by (simp add: rows1)
  then have D1: "directMatches s1 ?e ?p = [?N]"
    by (simp add: directMatches_def findMany_def)
  have "\<not> expandWhere [?N] c" if "c \<in> set (rows s1)" for c
  proof (cases "c = ?N")
    case True
    then show ?thesis by (simp add: expandWhere_def)
  next
    case False
    then have c: "c \<in> set (rows s)" using that by (simp add: rows1)
    show ?thesis
    proof
      assume "expandWhere [?N] c"
      then have "seedWhere ?e ?p c"
        by (auto simp: expandWhere_def isIn_valuesOf seedWhere_def)
      then show False using nomatch[OF c] by simp
    qed
  qed
  then have "findMany (expandWhere [?N]) s1 = []"
    by (simp add: findMany_Nil_iff)
  then have "expandGroup s1 [?N] = [?N]"
    by (subst expandGroup.simps) simp
  then have G1: "sortGroup (expandGroup s1 [?N]) = [?N]"
    by (simp add: sortGroup_def)
  have el: "electPrimary [?N] = Some ?N"
    by (simp add: electPrimary_def)
  have dm: "demoteOthers ?N [?N] s1 = s1"
    by (simp add: demoteOthers_def otherPrimaries_def)
  have "\<not> rootedWhere (nextId s) c" if "c \<in> set (rows s)" for c
  proof -
    have "id_of c \<noteq> nextId s" using k that by (auto simp: keyed_def)
    moreover have "linkedId c \<noteq> Some (nextId s)"
    proof
      assume "linkedId c = Some (nextId s)"
      then have "nextId s \<in> id_of ` set (rows s)" using k that by (auto simp: keyed_def)
      then show False using k by (auto simp: keyed_def)
    qed
    ultimately show ?thesis by (simp add: rootedWhere_def)
  qed
  then have "filter (rootedWhere (nextId s)) (rows s1) = [?N]"
    by (simp add: rows1 rootedWhere_def)
  then have rg: "rootedGroup (nextId s) s1 = [?N]"
    by (simp add: rootedGroup_def findMany_def)
  have "normalizedEmailsOf [?N] = {y. ?e = Some y}" "normalizedPhonesOf [?N] = {y. ?p = Some y}"
    by (simp_all add: normalizedEmailsOf_def normalizedPhonesOf_def normalizeEmail_idem normalizePhone_idem)
  then have "\<not> shouldCreateSecondary ?e ?p [?N]"
    unfolding shouldCreateSecondary_iff by simp
  then have ws: "writeSecondary ?e ?p ?N now2 s1 = Inr s1"
    by (simp add: writeSecondary_eq withSecondary_def rg)
  have resp: "buildResponse ?N [?N] = r1"
    unfolding r1 buildResponse_def collectValues_single secondaryIdsOf_def
    by (auto simp: truthy_normalizeEmail truthy_normalizePhone split: option.splits)
  show ?thesis
    unfolding identifyInTransaction_def Let_def D1 G1
    by (simp add: el dm ws rg resp)
qed

lemma idempotent_matched:
  assumes k: "keyed s" and clock: "\<forall>c \<in> set (rows s). createdAt c \<le> now1"
    and some: "directMatches s (normalizeEmail (email_in input)) (normalizePhone (phoneNumber_in input)) \<noteq> []"
    and run: "identifyInTransaction s now1 input = Inr (s1, r1)"
  shows "identifyInTransaction s1 now2 input = Inr (s1, r1)"
proof -
  let ?e = "normalizeEmail (email_in input)" and ?p = "normalizePhone (phoneNumber_in input)"
  let ?D = "directMatches s ?e ?p" and ?G = "resolvedGroup s ?e ?p"
  let ?L = "expandGroup s ?D"
  obtain prim fresh where el: "electPrimary ?G = Some prim"
    and fnd: "find (\<lambda>c. id_of c = id_of prim) (rootedGroup (id_of prim) s1) = Some fresh"
    and s1: "s1 = finalStore s ?e ?p prim now1"
    and r1: "r1 = buildResponse fresh (rootedGroup (id_of prim) s1)"
    using identify_matched_returns[OF some run] by blast
  have pg: "prim \<in> set ?G" and least: "\<forall>c \<in> set ?G. createdAt prim \<le> createdAt c"
    using elected_member[OF some] el by auto
  have sub: "set ?G \<subseteq> set (rows s)"
    using resolvedGroup_live[of s ?e ?p] by (auto simp: liveRows_def)
  have pr: "prim \<in> set (rows s)" using pg sub by auto
  have ids: "distinct (map id_of (rows s))" and below: "\<forall>c \<in> set (rows s). id_of c < nextId s"
    using k by (simp_all add: keyed_def)
  let ?sc = "shouldCreateSecondary ?e ?p (rootedGroup (id_of prim) (demoteOthers prim ?G s))"
  let ?S = "newSecondary ?e ?p (id_of prim) now1 (nextId s)"
  define f where "f = (\<lambda>c. if id_of c \<in> id_of ` set (otherPrimaries prim ?G) then demote (id_of prim) c else c)"
  define news where "news = (if ?sc then [?S] else [])"
  have rows1: "rows s1 = map f (rows s) @ news"
    unfolding s1 f_def news_def by (rule rows_finalStore)
  have f_fields [simp]: "id_of (f c) = id_of c" "deletedAt (f c) = deletedAt c" "email (f c) = email c"
    "phoneNumber (f c) = phoneNumber c" "createdAt (f c) = createdAt c" for c
    by (simp_all add: f_def)
  have ff: "id_of (f c) = id_of c \<and> deletedAt (f c) = deletedAt c \<and> email (f c) = email c \<and>
            phoneNumber (f c) = phoneNumber c \<and> createdAt (f c) = createdAt c" for c
    by simp
  have nw: "news = [] \<or> news = [?S] \<and> (truthy ?e \<or> truthy ?p)"
    by (auto simp: news_def shouldCreateSecondary_def)
  have f_shares [simp]: "sharesValue (f c) x = sharesValue c x" "sharesValue x (f d) = sharesValue x d" for c d x
    by (simp_all add: sharesValue_def)
  have f_seed [simp]: "seedWhere ?e ?p (f c) = seedWhere ?e ?p c" for c
    by (simp add: seedWhere_def)
  have fprim: "f prim = prim" using elected_kept[of prim ?G] by (simp add: f_def)
  have f_second: "\<not> (id_of (f c) \<noteq> id_of prim \<and> linkPrecedence (f c) = primary)" if "c \<in> set ?G" for c
  proof (cases "id_of c \<in> id_of ` set (otherPrimaries prim ?G)")
    case True
    then show ?thesis by (simp add: f_def)
  next
    case False
    then have "c \<notin> set (otherPrimaries prim ?G)" by blast
    then show ?thesis using that False by (simp add: otherPrimaries_def f_def)
  qed
  have frows: "f c \<in> set (rows s1)" if "c \<in> set (rows s)" for c
    using that unfolding rows1 by simp
  have news_S: "x = ?S \<and> ?sc" if "x \<in> set news" for x
    using that by (simp add: news_def split: if_splits)
  have split1: "(\<exists>c \<in> set (rows s). x = f c) \<or> x \<in> set news" if "x \<in> set (rows s1)" for x
    using that unfolding rows1 by auto
  have k1: "keyed s1" by (rule keyed_step[OF k run])
  have ids1: "distinct (map id_of (rows s1))" using k1 by (simp add: keyed_def)
  have Gset: "set ?G = connected sharesValue s (set ?D)"
    by (rule resolvedGroup_connected[OF ids])
  have DG: "set ?D \<subseteq> set ?G" unfolding Gset by (auto intro: connected.seed)
  let ?D1 = "directMatches s1 ?e ?p" and ?G1 = "resolvedGroup s1 ?e ?p"
  let ?L1 = "expandGroup s1 ?D1"
  have G1set: "set ?G1 = connected sharesValue s1 (set ?D1)"
    by (rule resolvedGroup_connected[OF ids1])
  have inD: "c \<in> set ?D" if "c \<in> set (rows s)" "seedWhere ?e ?p c" for c
    using that by (simp add: directMatches_def set_findMany)
  have inD1: "f c \<in> set ?D1" if "c \<in> set ?D" for c
  proof -
    from that have c: "c \<in> set (rows s)" "seedWhere ?e ?p c"
      by (simp_all add: directMatches_def set_findMany)
    then show ?thesis using frows by (simp add: directMatches_def set_findMany)
  qed
  obtain c0 where "c0 \<in> set ?D" using some by (cases ?D) auto
  then have some1: "?D1 \<noteq> []" using inD1 by fastforce
  have up: "f c \<in> connected sharesValue s1 (set ?D1)" if "c \<in> connected sharesValue s (set ?D)" for c
    using that
  proof (induction rule: connected.induct)
    case (seed c)
    then show ?case using inD1 by (auto intro: connected.seed)
  next
    case (link c d)
    show ?case
    proof (rule connected.link[OF link.IH])
      show "f d \<in> set (rows s1)" using link(2) by (rule frows)
      show "deletedAt (f d) = None" using link(3) by simp
      show "sharesValue (f c) (f d)" using link(4) by simp
    qed
  qed
  have down: "(\<exists>c \<in> set ?G. x = f c) \<or> x \<in> set news" if "x \<in> connected sharesValue s1 (set ?D1)" for x
    using that
  proof (induction rule: connected.induct)
    case (seed x)
    then have x: "x \<in> set (rows s1)" "seedWhere ?e ?p x"
      by (simp_all add: directMatches_def set_findMany)
    from split1[OF x(1)] show ?case
    proof
      assume "\<exists>c \<in> set (rows s). x = f c"
      then obtain c where c: "c \<in> set (rows s)" "x = f c" by blast
      then have "seedWhere ?e ?p c" using x(2) by simp
      then have "c \<in> set ?G" using inD[OF c(1)] DG by auto
      then show ?thesis using c(2) by blast
    next
      assume "x \<in> set news"
      then show ?thesis by simp
    qed
  next
    case (link a d)
    from split1[OF link(2)] show ?case
    proof
      assume "\<exists>c \<in> set (rows s). d = f c"
      then obtain c' where c': "c' \<in> set (rows s)" "d = f c'" by blast
      have live: "deletedAt c' = None" using link(3) c'(2) by simp
      from link.IH have "c' \<in> set ?G"
      proof
        assume "\<exists>c \<in> set ?G. a = f c"
        then obtain c where c: "c \<in> set ?G" "a = f c" by blast
        then have "sharesValue c c'" using link(4) c'(2) by simp
        moreover have "c \<in> connected sharesValue s (set ?D)" using c(1) Gset by simp
        ultimately have "c' \<in> connected sharesValue s (set ?D)"
          using c'(1) live by (auto intro: connected.link)
        then show ?thesis using Gset by simp
      next
        assume "a \<in> set news"
        then have a: "a = ?S" using news_S by blast
        have "sharesValue ?S c'" using link(4) a c'(2) by simp
        then have "seedWhere ?e ?p c'"
          using live by (auto simp: sharesValue_def seedWhere_def newSecondary_def)
        then show ?thesis using inD[OF c'(1)] DG by auto
      qed
      then show ?thesis using c'(2) by blast
    next
      assume "d \<in> set news"
      then show ?thesis by simp
    qed
  qed
  obtain prim' fresh' where el1: "electPrimary ?G1 = Some prim'"
    and fnd1: "find (\<lambda>c. id_of c = id_of prim') (rootedGroup (id_of prim') (finalStore s1 ?e ?p prim' now2)) = Some fresh'"
    and res1: "identifyInTransaction s1 now2 input =
             (if insertRefused s1 ?e ?p then Inl (KnownRequestError ''P2002'')
              else Inr (finalStore s1 ?e ?p prim' now2,
                        buildResponse fresh' (rootedGroup (id_of prim') (finalStore s1 ?e ?p prim' now2))))"
    using identify_matched[OF some1, of now2] by blast
  have pg1: "prim' \<in> set ?G1" and least1: "\<forall>c \<in> set ?G1. createdAt prim' \<le> createdAt c"
    using elected_member[OF some1] el1 by auto
  have primG1: "prim \<in> set ?G1"
    using up[of prim] pg Gset G1set fprim by simp
  have Lne: "?L \<noteq> []" by (rule resolvedGroup_nonempty[OF some])
  have L1ne: "?L1 \<noteq> []" by (rule resolvedGroup_nonempty[OF some1])
  have fP: "find (\<lambda>c. createdAt c = createdAt prim) ?L = Some prim"
    using electPrimary_sortGroup[OF Lne] el by (auto simp: resolvedGroup_def)
  have fP1: "find (\<lambda>c. createdAt c = createdAt prim') ?L1 = Some prim'"
    using electPrimary_sortGroup[OF L1ne] el1 by (auto simp: resolvedGroup_def)
  have le: "createdAt prim' \<le> createdAt prim" using least1 primG1 by blast
  have ge: "createdAt prim \<le> createdAt prim'"
  proof -
    have "prim' \<in> connected sharesValue s1 (set ?D1)" using pg1 G1set by simp
    from down[OF this] show ?thesis
    proof
      assume "\<exists>c \<in> set ?G. prim' = f c"
      then obtain c where c: "c \<in> set ?G" "prim' = f c" by blast
      then have "createdAt c = createdAt prim'" by simp
      then show ?thesis using least c(1) by force
    next
      assume "prim' \<in> set news"
      then have "createdAt prim' = now1" using news_S by (force simp: newSecondary_def)
      then show ?thesis using clock pr by force
    qed
  qed
  have teq: "createdAt prim' = createdAt prim" using le ge by simp
  have sim: "filter (\<lambda>x. id_of x \<noteq> nextId s) ?L1 = map f ?L"
    by (rule expandGroup_after_call[OF rows1 ff below nw])
  have same: "prim' = prim"
  proof (cases "id_of prim' = nextId s")
    case False
    have "find (\<lambda>c. createdAt c = createdAt prim) (filter (\<lambda>x. id_of x \<noteq> nextId s) ?L1) = Some prim'"
      using find_in_filter[OF fP1, of "\<lambda>x. id_of x \<noteq> nextId s"] False teq by simp
    then have "find (\<lambda>c. createdAt c = createdAt prim) (map f ?L) = Some prim'"
      unfolding sim .
    moreover have "find (\<lambda>c. createdAt c = createdAt prim) (map f ?L)
                     = map_option f (find (\<lambda>c. createdAt c = createdAt prim) ?L)"
      by (rule find_map_same) simp
    ultimately have "prim' = f prim" using fP by simp
    then show ?thesis using fprim by simp
  next
    case True
    have D1: "?D1 = map f ?D @ news"
      by (rule directMatches_after_call[OF rows1 ff nw clock])
    have hdL1: "hd ?L1 = hd ?D1" using hd_expandGroup[OF some1] by simp
    have hdD1: "hd ?D1 = f (hd ?D)" using D1 some by (simp add: hd_map)
    have hdD: "hd ?D \<in> set (rows s)"
      using some DG sub by (metis hd_in_set subsetD)
    have "hd ?L1 \<in> set ?G1" using L1ne by (simp add: set_resolvedGroup)
    then have "createdAt prim' \<le> createdAt (hd ?L1)" using least1 by blast
    moreover have "createdAt (hd ?L1) \<le> now1" using hdL1 hdD1 hdD clock by simp
    moreover have "createdAt prim' = now1"
    proof -
      have "prim' \<in> connected sharesValue s1 (set ?D1)" using pg1 G1set by simp
      from down[OF this] show ?thesis
      proof
        assume "\<exists>c \<in> set ?G. prim' = f c"
        then obtain c where c: "c \<in> set ?G" "prim' = f c" by blast
        then have "id_of c = nextId s" using True by simp
        moreover have "id_of c < nextId s" using below c(1) sub by blast
        ultimately show ?thesis by simp
      next
        assume "prim' \<in> set news"
        then show ?thesis using news_S by (force simp: newSecondary_def)
      qed
    qed
    ultimately have "createdAt (hd ?L1) = createdAt prim'" by simp
    then have "find (\<lambda>c. createdAt c = createdAt prim') ?L1 = Some (hd ?L1)"
      using find_hd[OF L1ne] by simp
    then have "prim' = hd ?L1" using fP1 by simp
    then have "id_of prim' = id_of (hd ?D)" using hdL1 hdD1 by simp
    moreover have "id_of (hd ?D) < nextId s" using below hdD by blast
    ultimately show ?thesis using True by simp
  qed
  have "otherPrimaries prim ?G1 = []"
  proof -
    have "\<not> (id_of x \<noteq> id_of prim \<and> linkPrecedence x = primary)" if "x \<in> set ?G1" for x
    proof -
      have "x \<in> connected sharesValue s1 (set ?D1)" using that G1set by simp
      from down[OF this] show ?thesis
      proof
        assume "\<exists>c \<in> set ?G. x = f c"
        then show ?thesis using f_second by blast
      next
        assume "x \<in> set news"
        then have "x = ?S" using news_S by blast
        then show ?thesis by (simp add: newSecondary_def)
      qed
    qed
    then show ?thesis by (simp add: otherPrimaries_def filter_empty_conv)
  qed
  then have dm1: "demoteOthers prim ?G1 s1 = s1"
    by (simp add: demoteOthers_def)
  have nsc: "\<not> shouldCreateSecondary ?e ?p (rootedGroup (id_of prim) s1)"
  proof (cases ?sc)
    case True
    then have "?S \<in> set (rows s1)" unfolding rows1 news_def by simp
    moreover have "rootedWhere (id_of prim) ?S" by (simp add: rootedWhere_def newSecondary_def)
    ultimately have S: "?S \<in> set (rootedGroup (id_of prim) s1)"
      by (simp add: rootedGroup_def set_findMany)
    have "x \<in> normalizedEmailsOf (rootedGroup (id_of prim) s1)" if "?e = Some x" for x
    proof -
      have "normalizeEmail (email ?S) = ?e"
        by (simp add: newSecondary_def normalizeEmail_idem)
      then show ?thesis using S that unfolding normalizedEmailsOf_def by auto
    qed
    moreover have "x \<in> normalizedPhonesOf (rootedGroup (id_of prim) s1)" if "?p = Some x" for x
    proof -
      have "normalizePhone (phoneNumber ?S) = ?p"
        by (simp add: newSecondary_def normalizePhone_idem)
      then show ?thesis using S that unfolding normalizedPhonesOf_def by auto
    qed
    ultimately show ?thesis unfolding shouldCreateSecondary_iff by blast
  next
    case False
    then have "s1 = demoteOthers prim ?G s"
      unfolding s1 finalStore_def withSecondary_def by simp
    then show ?thesis using False by simp
  qed
  have nr: "\<not> insertRefused s1 ?e ?p"
    using el1[unfolded same] nsc by (simp add: insertRefused_def dm1)
  have fs1: "finalStore s1 ?e ?p prim now2 = s1"
    unfolding finalStore_def dm1 using nsc by (simp add: withSecondary_def)
  have "find (\<lambda>c. id_of c = id_of prim) (rootedGroup (id_of prim) s1) = Some fresh'"
    using fnd1 unfolding same fs1 by simp
  then have "fresh' = fresh" using fnd by simp
  then show ?thesis
    using res1 nr unfolding same fs1 r1 by simp
qed

text \<open>Whether a call fails, and with which error, does not depend on its time.\<close>

lemma failure_independent_of_time:
  assumes "identifyInTransaction s now input = Inl err"
  shows "identifyInTransaction s now' input = Inl err"
proof (cases "directMatches s (normalizeEmail (email_in input)) (normalizePhone (phoneNumber_in input)) = []")
  case True
  show ?thesis
    using assms unfolding identify_unmatched[OF True] by (simp split: if_splits)
next
  case False
  let ?e = "normalizeEmail (email_in input)" and ?p = "normalizePhone (phoneNumber_in input)"
  obtain prim fresh where res: "identifyInTransaction s now input =
             (if insertRefused s ?e ?p then Inl (KnownRequestError ''P2002'')
              else Inr (finalStore s ?e ?p prim now,
                        buildResponse fresh (rootedGroup (id_of prim) (finalStore s ?e ?p prim now))))"
    using identify_matched[OF False, of now] by blast
  obtain prim' fresh' where res': "identifyInTransaction s now' input =
             (if insertRefused s ?e ?p then Inl (KnownRequestError ''P2002'')
              else Inr (finalStore s ?e ?p prim' now',
                        buildResponse fresh' (rootedGroup (id_of prim') (finalStore s ?e ?p prim' now'))))"
    using identify_matched[OF False, of now'] by blast
  have "insertRefused s ?e ?p \<and> err = KnownRequestError ''P2002''"
    using assms res by (auto split: if_splits)
  then show ?thesis using res' by simp
qed

section \<open>Claim C1: the resolved group\<close>

text \<open>
  Claim C1, as amended. In a store whose ids are unique, the group that the expansion
  loop computes from the seed matches is exactly the set of non-deleted contacts reached
  from the seed matches through shared stored values (the same non-empty email or the
  same non-empty phone number, compared as stored); no id occurs twice in it; and the
  loop has stopped at a fixpoint: one more query finds no new contact. The loop is a
  total function, so it stops on every store.
\<close>

theorem C1_group_is_component:
  assumes "distinct (map id_of (rows s))"
  shows "set (expandGroup s (directMatches s e p)) = connected sharesValue s (set (directMatches s e p)) \<and>
         distinct (map id_of (expandGroup s (directMatches s e p))) \<and>
         findMany (expandWhere (expandGroup s (directMatches s e p))) s = []"
proof -
  have "set (directMatches s e p) \<subseteq> {c \<in> set (rows s). deletedAt c = None}"
    by (auto simp: directMatches_def set_findMany seedWhere_def)
  moreover have "distinct (map id_of (directMatches s e p))"
    unfolding directMatches_def by (rule distinct_ids_findMany[OF assms])
  ultimately show ?thesis
    using expandGroup_connected[OF assms] by blast
qed

lemma legacy_direct: "directMatches legacyStore (Some ''a@x.com'') None = [legacy1]"
  by (simp add: directMatches_def findMany_def seedWhere_def truthy_def legacyStore_def legacy1_def legacy2_def)

lemma legacy_group: "expandGroup legacyStore [legacy1] = [legacy1]"
proof -
  have "findMany (expandWhere [legacy1]) legacyStore = []"
    by (simp add: findMany_def expandWhere_def valuesOf_def isIn_def truthy_def legacyStore_def legacy1_def legacy2_def)
  then show ?thesis by (subst expandGroup.simps) simp
qed

theorem C1_group_is_component_witness:
  "distinct (map id_of (rows legacyStore)) \<and>
   set (expandGroup legacyStore (directMatches legacyStore (Some ''a@x.com'') None))
     = connected sharesValue legacyStore (set (directMatches legacyStore (Some ''a@x.com'') None)) \<and>
   expandGroup legacyStore (directMatches legacyStore (Some ''a@x.com'') None) = [legacy1]"
proof -
  have d: "distinct (map id_of (rows legacyStore))"
    by (simp add: legacyStore_def legacy1_def legacy2_def)
  show ?thesis
    using C1_group_is_component[OF d, of "Some ''a@x.com''" None] d legacy_direct legacy_group by simp
qed

text \<open>
  Claim C1 as stated speaks of shared normalized values. On \<open>legacyStore\<close> the request
  for \<open>a@x.com\<close> resolves to the first row alone, while the second row has the same
  normalized email and so belongs to the component of normalized values.
\<close>

theorem C1_counterexample:
  "normalizeEmail (Some ''a@x.com'') = Some ''a@x.com'' \<and>
   directMatches legacyStore (Some ''a@x.com'') None = [legacy1] \<and>
   expandGroup legacyStore (directMatches legacyStore (Some ''a@x.com'') None) = [legacy1] \<and>
   legacy2 \<in> connected sharesNormalized legacyStore (set (directMatches legacyStore (Some ''a@x.com'') None)) \<and>
   set (expandGroup legacyStore (directMatches legacyStore (Some ''a@x.com'') None))
     \<noteq> connected sharesNormalized legacyStore (set (directMatches legacyStore (Some ''a@x.com'') None))"
proof -
  have n: "normalizeEmail (Some ''a@x.com'') = Some ''a@x.com''"
    by code_simp
  have n2: "normalizeEmail (Some ''A@x.com'') = Some ''a@x.com''"
    by code_simp
  have sh: "sharesNormalized legacy1 legacy2"
    using n n2 by (simp add: sharesNormalized_def legacy1_def legacy2_def)
  have "legacy1 \<in> connected sharesNormalized legacyStore {legacy1}"
    by (rule connected.seed) simp
  then have in2: "legacy2 \<in> connected sharesNormalized legacyStore {legacy1}"
    by (rule connected.link) (use sh in \<open>simp_all add: legacyStore_def legacy2_def\<close>)
  have ne: "legacy2 \<notin> set [legacy1]"
    by (simp add: legacy1_def legacy2_def)
  show ?thesis
    using n in2 ne by (auto simp: legacy_direct legacy_group)
qed

section \<open>Claim C2: the oldest wins a merge\<close>






section \<open>Claim C3: idempotence\<close>

text \<open>
  Claim C3, as amended. Let the keys of the store be as the schema gives them (unique
  ids below the next id of the sequence, every \<open>linkedId\<close> the id of a row), and let no row
  carry a creation time later than the time of the first call; rows created at the same
  time are allowed. If the first call with a valid input returns a result and a store,
  then a second call with the same input on that store, at any time, leaves the store as
  it is (no row is created or changed) and returns the same result. If the first call
  fails, it is rolled back, and the second call fails with the same error.
\<close>

theorem C3_idempotent:
  assumes "keyed s" and "\<forall>c \<in> set (rows s). createdAt c \<le> now1"
    and "validateInput input = None"
  shows "(\<forall>s1 r1. identifyInTransaction s now1 input = Inr (s1, r1) \<longrightarrow>
                  identifyInTransaction s1 now2 input = Inr (s1, r1)) \<and>
         (\<forall>err. identifyInTransaction s now1 input = Inl err \<longrightarrow>
                identifyInTransaction s now2 input = Inl err)"
proof (intro conjI allI impI)
  fix s1 r1 assume run: "identifyInTransaction s now1 input = Inr (s1, r1)"
  show "identifyInTransaction s1 now2 input = Inr (s1, r1)"
  proof (cases "directMatches s (normalizeEmail (email_in input)) (normalizePhone (phoneNumber_in input)) = []")
    case True
    show ?thesis by (rule idempotent_created[OF assms(1,3) True run])
  next
    case False
    show ?thesis by (rule idempotent_matched[OF assms(1,2) False run])
  qed
next
  fix err assume "identifyInTransaction s now1 input = Inl err"
  then show "identifyInTransaction s now2 input = Inl err"
    by (rule failure_independent_of_time)
qed

text \<open>
  A new email for the phone number of \<open>tieStore\<close>, at the time 100 at which its two rows
  were created; the same request once more.
\<close>

theorem C3_idempotent_witness:
  "keyed tieStore \<and> createdAt tie1 \<le> 100 \<and> createdAt tie2 \<le> 100 \<and> validateInput newEmail = None \<and>
   identifyInTransaction tieStore 100 newEmail =
     Inr (afterNewEmail, \<lparr>primaryContatctId = 1, emails = [''a@x.com'', ''b@x.com'', ''c@x.com''],
                          phoneNumbers = [''100''], secondaryContactIds = [2, 3]\<rparr>) \<and>
   identifyInTransaction afterNewEmail 101 newEmail =
     Inr (afterNewEmail, \<lparr>primaryContatctId = 1, emails = [''a@x.com'', ''b@x.com'', ''c@x.com''],
                          phoneNumbers = [''100''], secondaryContactIds = [2, 3]\<rparr>)"
proof -
  have w: "keyed tieStore"
    by (simp add: keyed_def tieStore_def tie1_def tie2_def)
  have c: "\<forall>c \<in> set (rows tieStore). createdAt c \<le> 100"
    by (simp add: tieStore_def tie1_def tie2_def)
  have v: "validateInput newEmail = None" by code_simp
  have r: "identifyInTransaction tieStore 100 newEmail =
     Inr (afterNewEmail, \<lparr>primaryContatctId = 1, emails = [''a@x.com'', ''b@x.com'', ''c@x.com''],
                          phoneNumbers = [''100''], secondaryContactIds = [2, 3]\<rparr>)"
    by code_simp
  show ?thesis
    using w v r C3_idempotent[OF w c v, of 101] by (simp add: tie1_def tie2_def)
qed

text \<open>
  Claim C3 as stated speaks of every store state. The one row of \<open>lateStore\<close> carries the
  creation time 10. A first call at time 3 links a new row to it and returns the id 1; the
  new row is then the oldest member of the group, so the second call elects it, returns
  the id 2 and demotes row 1.
\<close>

theorem C3_counterexample:
  "keyed lateStore \<and> validateInput newEmail = None \<and>
   identifyInTransaction lateStore 3 newEmail =
     Inr (afterLate, \<lparr>primaryContatctId = 1, emails = [''a@x.com'', ''c@x.com''],
                      phoneNumbers = [''100''], secondaryContactIds = [2]\<rparr>) \<and>
   identifyInTransaction afterLate 4 newEmail =
     Inr (\<lparr>rows = [demote 2 late1, late2], nextId = 3\<rparr>,
          \<lparr>primaryContatctId = 2, emails = [''c@x.com'', ''a@x.com''],
           phoneNumbers = [''100''], secondaryContactIds = [1]\<rparr>) \<and>
   demote 2 late1 \<noteq> late1"
proof -
  have w: "keyed lateStore"
    by (simp add: keyed_def lateStore_def late1_def)
  have v: "validateInput newEmail = None" by code_simp
  have 1: "identifyInTransaction lateStore 3 newEmail =
     Inr (afterLate, \<lparr>primaryContatctId = 1, emails = [''a@x.com'', ''c@x.com''],
                      phoneNumbers = [''100''], secondaryContactIds = [2]\<rparr>)"
    by code_simp
  have 2: "identifyInTransaction afterLate 4 newEmail =
     Inr (\<lparr>rows = [demote 2 late1, late2], nextId = 3\<rparr>,
          \<lparr>primaryContatctId = 2, emails = [''c@x.com'', ''a@x.com''],
           phoneNumbers = [''100''], secondaryContactIds = [1]\<rparr>)"
    by code_simp
  have 3: "demote 2 late1 \<noteq> late1" by (simp add: demote_def late1_def)
  show ?thesis using w v 1 2 3 by simp
qed

section \<open>Claim C4: the invariant of a reachable store\<close>

text \<open>
  Claim C4, as amended. In every store reachable from the empty store by calls, each
  connected cluster of non-deleted contacts holds at most one primary; a contact is
  primary exactly when its \<open>linkedId\<close> is null, and the \<open>linkedId\<close> of every other contact is
  the id of another contact of the store. That contact may itself be a secondary, and it
  need not be the primary of the cluster; a cluster may hold no primary.
\<close>

theorem C4_at_most_one_primary:
  assumes "reachable s"
  shows "atMostOnePrimary s \<and> othersLinked s"
  using reachable_atMostOnePrimary[OF assms] reachable_invariants[OF assms] by simp

text \<open>The store after the four calls.\<close>

theorem C4_at_most_one_primary_witness:
  "reachable chainStore \<and> atMostOnePrimary chainStore \<and> othersLinked chainStore"
  using C4_at_most_one_primary[OF chainStore_reachable] chainStore_reachable by simp

text \<open>
  Claim C4 as stated fails in reachable stores. After the four calls row 3 still links
  to row 2, which the fourth call demoted: a \<open>linkedId\<close> names a secondary, and a member of
  the cluster of the primary, row 1, does not link to it. After the merge of two
  primaries that share no value (\<open>mergedStore\<close>) the demoted row is a cluster of its own,
  without a primary.
\<close>

theorem C4_counterexample:
  "reachable chainStore \<and> \<not> noLinkToSecondary chainStore \<and> \<not> onePrimaryPerCluster chainStore \<and>
   \<not> clusterInvariant chainStore \<and>
   reachable mergedStore \<and> \<not> onePrimaryPerCluster mergedStore \<and> \<not> clusterInvariant mergedStore"
proof -
  have rows3: "chain3 \<in> set (rows chainStore)" "demote 1 chain2 \<in> set (rows chainStore)"
    by (simp_all add: chainStore_def)
  have a: "\<not> noLinkToSecondary chainStore"
  proof
    assume "noLinkToSecondary chainStore"
    moreover have "linkedId chain3 = Some (id_of (demote 1 chain2))"
      by (simp add: chain3_def chain2_def)
    ultimately have "linkPrecedence (demote 1 chain2) \<noteq> secondary"
      using rows3 unfolding noLinkToSecondary_def by blast
    then show False by simp
  qed
  have c: "\<not> onePrimaryPerCluster chainStore"
  proof
    assume "onePrimaryPerCluster chainStore"
    moreover have live: "chain3 \<in> liveRows chainStore"
      by (simp add: liveRows_def chainStore_def chain3_def)
    ultimately obtain p where p: "p \<in> connected sharesNormalized chainStore {chain3}" "linkPrecedence p = primary"
      "\<forall>m \<in> connected sharesNormalized chainStore {chain3}. m \<noteq> p \<longrightarrow> linkedId m = Some (id_of p)"
      unfolding onePrimaryPerCluster_def by blast
    have "chain3 \<in> connected sharesNormalized chainStore {chain3}" by (auto intro: connected.seed)
    moreover have "chain3 \<noteq> p" using p(2) by (auto simp: chain3_def)
    ultimately have "linkedId chain3 = Some (id_of p)" using p(3) by blast
    then have "id_of p = 2" by (simp add: chain3_def)
    moreover have "p \<in> set (rows chainStore)"
      using connected_rows[OF p(1)] rows3 by auto
    ultimately have "p = demote 1 chain2"
      by (auto simp: chainStore_def chain1_def chain3_def)
    then show False using p(2) by simp
  qed
  have b: "\<not> onePrimaryPerCluster mergedStore"
  proof
    assume "onePrimaryPerCluster mergedStore"
    moreover have "merged2 \<in> liveRows mergedStore"
      by (simp add: liveRows_def mergedStore_def merged2_def)
    ultimately obtain p where "p \<in> connected sharesNormalized mergedStore {merged2}" "linkPrecedence p = primary"
      unfolding onePrimaryPerCluster_def by blast
    then have "linkPrecedence merged2 = primary" unfolding merged2_alone by simp
    then show False by (simp add: merged2_def)
  qed
  show ?thesis
    using a b c chainStore_reachable mergedStore_reachable by (simp add: clusterInvariant_def)
qed

section \<open>Claim C5: when a secondary is written\<close>

text \<open>
  Claim C5. When the seed query finds a match, the Secondary Writer inserts a row
  exactly when the request brings new information: its normalized email is present and
  not among the normalized emails of the group rooted at the elected contact, or its
  normalized phone number is present and not among the normalized phone numbers of that
  group. The row carries the request's normalized email and phone number,
  \<open>linkPrecedence = secondary\<close> and \<open>linkedId\<close> the id of the elected contact. The insert
  succeeds, and the rows of the final store are the rows after the demotion followed by
  the new row, only when no row of the table holds the request's email; when a row does,
  the unique index refuses the insert, the call fails with the error \<open>P2002\<close> and no row is
  written. A request that brings no new information writes no row and succeeds.
\<close>

theorem C5_secondary_written_unless_refused:
  assumes m: "directMatches s (normalizeEmail (email_in input)) (normalizePhone (phoneNumber_in input)) \<noteq> []"
  shows "\<exists>prim.
           electPrimary (resolvedGroup s (normalizeEmail (email_in input)) (normalizePhone (phoneNumber_in input))) = Some prim \<and>
           (if ((\<exists>x. normalizeEmail (email_in input) = Some x \<and>
                      x \<notin> normalizedEmailsOf (rootedGroup (id_of prim)
                             (demoteOthers prim (resolvedGroup s (normalizeEmail (email_in input)) (normalizePhone (phoneNumber_in input))) s))) \<or>
                 (\<exists>x. normalizePhone (phoneNumber_in input) = Some x \<and>
                      x \<notin> normalizedPhonesOf (rootedGroup (id_of prim)
                             (demoteOthers prim (resolvedGroup s (normalizeEmail (email_in input)) (normalizePhone (phoneNumber_in input))) s)))) \<and>
               emailTaken (normalizeEmail (email_in input)) s
            then identifyInTransaction s now input = Inl (KnownRequestError ''P2002'')
            else (\<exists>s' r.
              identifyInTransaction s now input = Inr (s', r) \<and>
              rows s' =
                rows (demoteOthers prim (resolvedGroup s (normalizeEmail (email_in input)) (normalizePhone (phoneNumber_in input))) s) @
                (if (\<exists>x. normalizeEmail (email_in input) = Some x \<and>
                         x \<notin> normalizedEmailsOf (rootedGroup (id_of prim)
                                (demoteOthers prim (resolvedGroup s (normalizeEmail (email_in input)) (normalizePhone (phoneNumber_in input))) s))) \<or>
                    (\<exists>x. normalizePhone (phoneNumber_in input) = Some x \<and>
                         x \<notin> normalizedPhonesOf (rootedGroup (id_of prim)
                                (demoteOthers prim (resolvedGroup s (normalizeEmail (email_in input)) (normalizePhone (phoneNumber_in input))) s)))
                 then [\<lparr>id_of = nextId s, email = normalizeEmail (email_in input),
                        phoneNumber = normalizePhone (phoneNumber_in input), linkPrecedence = secondary,
                        linkedId = Some (id_of prim), createdAt = now, deletedAt = None\<rparr>]
                 else [])))"
proof -
  let ?e = "normalizeEmail (email_in input)" and ?p = "normalizePhone (phoneNumber_in input)"
  let ?G = "resolvedGroup s ?e ?p"
  obtain prim fresh where el: "electPrimary ?G = Some prim"
    and res: "identifyInTransaction s now input =
             (if insertRefused s ?e ?p then Inl (KnownRequestError ''P2002'')
              else Inr (finalStore s ?e ?p prim now,
                        buildResponse fresh (rootedGroup (id_of prim) (finalStore s ?e ?p prim now))))"
    using identify_matched[OF m, of now] by blast
  let ?R = "rootedGroup (id_of prim) (demoteOthers prim ?G s)"
  let ?row = "\<lparr>id_of = nextId s, email = ?e, phoneNumber = ?p, linkPrecedence = secondary,
                linkedId = Some (id_of prim), createdAt = now, deletedAt = None\<rparr>"
  define new where
    "new \<longleftrightarrow> (\<exists>x. ?e = Some x \<and> x \<notin> normalizedEmailsOf ?R) \<or> (\<exists>x. ?p = Some x \<and> x \<notin> normalizedPhonesOf ?R)"
  have sc: "shouldCreateSecondary ?e ?p ?R \<longleftrightarrow> new"
    unfolding new_def by (rule shouldCreateSecondary_iff)
  have ref: "insertRefused s ?e ?p \<longleftrightarrow> new \<and> emailTaken ?e s"
    using el sc by (simp add: insertRefused_def)
  have rows: "rows (finalStore s ?e ?p prim now) = rows (demoteOthers prim ?G s) @ (if new then [?row] else [])"
    using sc by (simp add: finalStore_def rows_withSecondary nextId_demoteOthers newSecondary_def)
  have "if new \<and> emailTaken ?e s
        then identifyInTransaction s now input = Inl (KnownRequestError ''P2002'')
        else (\<exists>s' r. identifyInTransaction s now input = Inr (s', r) \<and>
                rows s' = rows (demoteOthers prim ?G s) @ (if new then [?row] else []))"
  proof (cases "new \<and> emailTaken ?e s")
    case True
    then show ?thesis using res ref by simp
  next
    case False
    then have "identifyInTransaction s now input =
         Inr (finalStore s ?e ?p prim now, buildResponse fresh (rootedGroup (id_of prim) (finalStore s ?e ?p prim now)))"
      using res ref by simp
    then have "\<exists>s' r. identifyInTransaction s now input = Inr (s', r) \<and>
              rows s' = rows (demoteOthers prim ?G s) @ (if new then [?row] else [])"
      using rows by blast
    then show ?thesis using False by (simp only: if_False)
  qed
  then show ?thesis
    unfolding new_def using el by (intro exI[of _ prim] conjI)
qed

text \<open>
  The store after \<open>a@x.com\<close> was seen, and then the request with \<open>a@x.com\<close> and the new
  phone number \<open>+1555\<close> (the example of the specification, and the second request of
  the integration test "adds a secondary when new phone is introduced for same email").
  The phone number is new to the group, so the Secondary Writer inserts a row with the
  email \<open>a@x.com\<close>, which row 1 holds: the call fails and the store stays as it was.
\<close>

lemma firstSeen_elected:
  "electPrimary (resolvedGroup firstSeen (normalizeEmail (email_in specExample)) (normalizePhone (phoneNumber_in specExample)))
     = Some twoPrim1"
  by code_simp

lemma firstSeen_rooted:
  "rootedGroup (id_of twoPrim1)
     (demoteOthers twoPrim1
        (resolvedGroup firstSeen (normalizeEmail (email_in specExample)) (normalizePhone (phoneNumber_in specExample)))
        firstSeen) = [twoPrim1]"
  by code_simp

lemma firstSeen_failed_call:
  "identifyContact \<lparr>txOutcome = (\<lambda>n. Commits), txTime = (\<lambda>n. 2)\<rparr> firstSeen specExample =
     \<lparr>result = Inl (KnownRequestError ''P2002''), store = firstSeen, delays = [], attempts = 1\<rparr>"
  by code_simp

theorem C5_secondary_written_unless_refused_witness:
  "directMatches firstSeen (normalizeEmail (email_in specExample)) (normalizePhone (phoneNumber_in specExample)) \<noteq> [] \<and>
   normalizePhone (phoneNumber_in specExample) = Some ''+1555'' \<and>
   ''+1555'' \<notin> normalizedPhonesOf (rootedGroup (id_of twoPrim1)
     (demoteOthers twoPrim1
        (resolvedGroup firstSeen (normalizeEmail (email_in specExample)) (normalizePhone (phoneNumber_in specExample)))
        firstSeen)) \<and>
   emailTaken (normalizeEmail (email_in specExample)) firstSeen \<and>
   identifyInTransaction firstSeen 2 specExample = Inl (KnownRequestError ''P2002'') \<and>
   identifyContact \<lparr>txOutcome = (\<lambda>n. Commits), txTime = (\<lambda>n. 2)\<rparr> firstSeen specExample =
     \<lparr>result = Inl (KnownRequestError ''P2002''), store = firstSeen, delays = [], attempts = 1\<rparr>"
proof -
  let ?e = "normalizeEmail (email_in specExample)" and ?p = "normalizePhone (phoneNumber_in specExample)"
  have m: "directMatches firstSeen ?e ?p \<noteq> []" by code_simp
  have p: "?p = Some ''+1555''" by code_simp
  have t: "emailTaken ?e firstSeen" by code_simp
  have n: "''+1555'' \<notin> normalizedPhonesOf (rootedGroup (id_of twoPrim1)
     (demoteOthers twoPrim1 (resolvedGroup firstSeen ?e ?p) firstSeen))"
    unfolding firstSeen_rooted by (simp add: normalizedPhonesOf_def twoPrim1_def normalizePhone_def)
  have "identifyInTransaction firstSeen 2 specExample = Inl (KnownRequestError ''P2002'')"
    using C5_secondary_written_unless_refused[OF m, of 2] p t n unfolding firstSeen_elected by auto
  then show ?thesis using m p t n firstSeen_failed_call by simp
qed

section \<open>Claim C6: which member is elected\<close>

text \<open>
  Claim C6, as amended. For every non-empty resolved group the elected contact is a
  member with the earliest \<open>createdAt\<close>; when several members share the earliest
  \<open>createdAt\<close>, it is the first of them in the order of the group (the seed matches,
  then the rows of each expansion round), whatever their ids.
\<close>

theorem C6_elected_is_first_earliest:
  assumes "grp \<noteq> []"
  shows "\<exists>prim. electPrimary (sortGroup grp) = Some prim \<and> prim \<in> set grp \<and>
           (\<forall>c \<in> set grp. createdAt prim \<le> createdAt c) \<and>
           find (\<lambda>c. \<forall>d \<in> set grp. createdAt c \<le> createdAt d) grp = Some prim"
proof -
  obtain prim where p: "electPrimary (sortGroup grp) = Some prim" "prim \<in> set grp"
      "\<forall>c \<in> set grp. createdAt prim \<le> createdAt c"
      "find (\<lambda>c. createdAt c = createdAt prim) grp = Some prim"
    using electPrimary_sortGroup[OF assms] by blast
  have "find (\<lambda>c. \<forall>d \<in> set grp. createdAt c \<le> createdAt d) grp
        = find (\<lambda>c. createdAt c = createdAt prim) grp"
  proof (rule find_cong[OF refl])
    fix c assume "c \<in> set grp"
    then show "(\<forall>d \<in> set grp. createdAt c \<le> createdAt d) = (createdAt c = createdAt prim)"
      using p(2,3) by force
  qed
  then show ?thesis using p by auto
qed

text \<open>The group of the two rows of \<open>tieStore\<close>, found in the order 2, 1.\<close>

theorem C6_elected_is_first_earliest_witness:
  "[tie2, tie1] \<noteq> [] \<and> electPrimary (sortGroup [tie2, tie1]) = Some tie2 \<and>
   find (\<lambda>c. \<forall>d \<in> set [tie2, tie1]. createdAt c \<le> createdAt d) [tie2, tie1] = Some tie2"
proof -
  have e: "electPrimary (sortGroup [tie2, tie1]) = Some tie2"
    by (simp add: electPrimary_def sortGroup_def tie1_def tie2_def)
  show ?thesis
    using C6_elected_is_first_earliest[of "[tie2, tie1]"] e by auto
qed

text \<open>
  Claim C6 as stated asks for the lower id among the members that share the earliest
  \<open>createdAt\<close>. On \<open>tieStore\<close> a request for the second row's email resolves to the
  group 2, 1; both rows have the same \<open>createdAt\<close>, and row 2 is elected.
\<close>

theorem C6_counterexample:
  "expandGroup tieStore (directMatches tieStore (Some ''b@x.com'') None) = [tie2, tie1] \<and>
   electPrimary (sortGroup [tie2, tie1]) = Some tie2 \<and>
   createdAt tie1 = createdAt tie2 \<and> id_of tie1 < id_of tie2 \<and>
   \<not> lowerIdOnTie [tie2, tie1] tie2"
proof -
  have d: "directMatches tieStore (Some ''b@x.com'') None = [tie2]"
    by (simp add: directMatches_def findMany_def seedWhere_def truthy_def tieStore_def tie1_def tie2_def)
  have n1: "findMany (expandWhere [tie2]) tieStore = [tie1]"
    by (simp add: findMany_def expandWhere_def valuesOf_def isIn_def truthy_def tieStore_def tie1_def tie2_def)
  have n2: "findMany (expandWhere [tie2, tie1]) tieStore = []"
    by (simp add: findMany_def expandWhere_def valuesOf_def isIn_def truthy_def tieStore_def tie1_def tie2_def)
  have g: "expandGroup tieStore [tie2] = [tie2, tie1]"
    by (subst expandGroup.simps, simp add: n1, subst expandGroup.simps, simp add: n2)
  have e: "electPrimary (sortGroup [tie2, tie1]) = Some tie2"
    by (simp add: electPrimary_def sortGroup_def tie1_def tie2_def)
  show ?thesis
    using d g e by (simp add: lowerIdOnTie_def tie1_def tie2_def)
qed

section \<open>Claim C7: the order of the response\<close>

text \<open>
  Claim C7, as amended. When the seed query finds a match, the call fails only when
  the unique index on \<open>email\<close> refuses the insert of the Secondary Writer, and succeeds
  otherwise. When it succeeds, with the final group being the rows of the final store
  rooted at the returned primary id, the returned emails start with the elected contact's
  own email (when truthy), continue with every other non-empty email of the final group
  in ascending order of the earliest \<open>createdAt\<close> among the contacts that carry it, and hold
  no stored value twice; the same holds for the phone numbers; and the secondary ids are
  the ids of the final group's secondaries that link to the primary id, in ascending
  order.
\<close>

theorem C7_response_order:
  assumes m: "directMatches s (normalizeEmail (email_in input)) (normalizePhone (phoneNumber_in input)) \<noteq> []"
  shows "if insertRefused s (normalizeEmail (email_in input)) (normalizePhone (phoneNumber_in input))
         then identifyInTransaction s now input = Inl (KnownRequestError ''P2002'')
         else (\<exists>s' r fresh.
           identifyInTransaction s now input = Inr (s', r) \<and>
           find (\<lambda>c. id_of c = primaryContatctId r) (rootedGroup (primaryContatctId r) s') = Some fresh \<and>
           orderedValues email fresh (rootedGroup (primaryContatctId r) s') (emails r) \<and>
           orderedValues phoneNumber fresh (rootedGroup (primaryContatctId r) s') (phoneNumbers r) \<and>
           sorted (secondaryContactIds r) \<and>
           set (secondaryContactIds r) =
             id_of ` {c \<in> set (rootedGroup (primaryContatctId r) s').
                        linkPrecedence c = secondary \<and> linkedId c = Some (primaryContatctId r)})"
proof -
  let ?e = "normalizeEmail (email_in input)" and ?p = "normalizePhone (phoneNumber_in input)"
  obtain prim fresh where
    fnd: "find (\<lambda>c. id_of c = id_of prim) (rootedGroup (id_of prim) (finalStore s ?e ?p prim now)) = Some fresh"
    and fr: "id_of fresh = id_of prim"
    and res: "identifyInTransaction s now input =
             (if insertRefused s ?e ?p then Inl (KnownRequestError ''P2002'')
              else Inr (finalStore s ?e ?p prim now,
                        buildResponse fresh (rootedGroup (id_of prim) (finalStore s ?e ?p prim now))))"
    using identify_matched[OF m, of now] by blast
  let ?s' = "finalStore s ?e ?p prim now"
  let ?FG = "rootedGroup (id_of prim) ?s'"
  let ?r = "buildResponse fresh ?FG"
  have pid: "primaryContatctId ?r = id_of prim" using fr by (simp add: buildResponse_def)
  have mem: "fresh \<in> set ?FG" using fnd by (auto simp: find_Some_iff)
  have srt: "sorted (map createdAt ?FG)" by (rule sorted_rootedGroup)
  have e: "orderedValues email fresh ?FG (emails ?r)"
    using collectValues_ordered[OF srt mem, of email] by (simp add: buildResponse_def)
  have p: "orderedValues phoneNumber fresh ?FG (phoneNumbers ?r)"
    using collectValues_ordered[OF srt mem, of phoneNumber] by (simp add: buildResponse_def)
  have s1: "sorted (secondaryContactIds ?r)"
    by (simp add: buildResponse_def secondaryIdsOf_def)
  have s2: "set (secondaryContactIds ?r) =
      id_of ` {c \<in> set ?FG. linkPrecedence c = secondary \<and> linkedId c = Some (id_of prim)}"
    using fr by (simp add: buildResponse_def secondaryIdsOf_def)
  show ?thesis
  proof (cases "insertRefused s ?e ?p")
    case True
    then show ?thesis using res by simp
  next
    case False
    have "\<exists>s' r fresh.
           identifyInTransaction s now input = Inr (s', r) \<and>
           find (\<lambda>c. id_of c = primaryContatctId r) (rootedGroup (primaryContatctId r) s') = Some fresh \<and>
           orderedValues email fresh (rootedGroup (primaryContatctId r) s') (emails r) \<and>
           orderedValues phoneNumber fresh (rootedGroup (primaryContatctId r) s') (phoneNumbers r) \<and>
           sorted (secondaryContactIds r) \<and>
           set (secondaryContactIds r) =
             id_of ` {c \<in> set (rootedGroup (primaryContatctId r) s').
                        linkPrecedence c = secondary \<and> linkedId c = Some (primaryContatctId r)}"
    proof (intro exI conjI)
      show "identifyInTransaction s now input = Inr (?s', ?r)" using res False by simp
      show "find (\<lambda>c. id_of c = primaryContatctId ?r) (rootedGroup (primaryContatctId ?r) ?s') = Some fresh"
        unfolding pid by (rule fnd)
      show "orderedValues email fresh (rootedGroup (primaryContatctId ?r) ?s') (emails ?r)"
        unfolding pid by (rule e)
      show "orderedValues phoneNumber fresh (rootedGroup (primaryContatctId ?r) ?s') (phoneNumbers ?r)"
        unfolding pid by (rule p)
      show "sorted (secondaryContactIds ?r)" by (rule s1)
      show "set (secondaryContactIds ?r) =
               id_of ` {c \<in> set (rootedGroup (primaryContatctId ?r) ?s').
                          linkPrecedence c = secondary \<and> linkedId c = Some (primaryContatctId ?r)}"
        unfolding pid by (rule s2)
    qed
    then show ?thesis using False by (simp only: if_False)
  qed
qed

text \<open>The merge of the two rows of \<open>legacyStore\<close>, which writes no row.\<close>

lemma legacyStore_accepted:
  "\<not> insertRefused legacyStore (normalizeEmail (email_in legacyMerge)) (normalizePhone (phoneNumber_in legacyMerge))"
  by code_simp

theorem C7_response_order_witness:
  "directMatches legacyStore (normalizeEmail (email_in legacyMerge)) (normalizePhone (phoneNumber_in legacyMerge)) \<noteq> [] \<and>
   (\<exists>s' r fresh.
           identifyInTransaction legacyStore 3 legacyMerge = Inr (s', r) \<and>
           find (\<lambda>c. id_of c = primaryContatctId r) (rootedGroup (primaryContatctId r) s') = Some fresh \<and>
           orderedValues email fresh (rootedGroup (primaryContatctId r) s') (emails r) \<and>
           orderedValues phoneNumber fresh (rootedGroup (primaryContatctId r) s') (phoneNumbers r) \<and>
           sorted (secondaryContactIds r) \<and>
           set (secondaryContactIds r) =
             id_of ` {c \<in> set (rootedGroup (primaryContatctId r) s').
                        linkPrecedence c = secondary \<and> linkedId c = Some (primaryContatctId r)})"
proof -
  have m: "directMatches legacyStore (normalizeEmail (email_in legacyMerge)) (normalizePhone (phoneNumber_in legacyMerge)) \<noteq> []"
    by code_simp
  show ?thesis
    using C7_response_order[OF m, of 3] m legacyStore_accepted by (simp only: if_False simp_thms)
qed

text \<open>
  Claim C7 as stated removes duplicates by normalized value. The merge of the two rows of
  \<open>legacyStore\<close> returns both \<open>a@x.com\<close> and \<open>A@x.com\<close>, which have the same normalized
  value.
\<close>

lemma legacyStore_merge:
  "identifyInTransaction legacyStore 3 legacyMerge =
     Inr (\<lparr>rows = [legacy1, demote 1 legacy2], nextId = 3\<rparr>,
          \<lparr>primaryContatctId = 1, emails = [''a@x.com'', ''A@x.com''], phoneNumbers = [''100'', ''200''],
           secondaryContactIds = [2]\<rparr>)"
  by code_simp

theorem C7_counterexample:
  "identifyInTransaction legacyStore 3 legacyMerge =
     Inr (\<lparr>rows = [legacy1, demote 1 legacy2], nextId = 3\<rparr>,
          \<lparr>primaryContatctId = 1, emails = [''a@x.com'', ''A@x.com''], phoneNumbers = [''100'', ''200''],
           secondaryContactIds = [2]\<rparr>) \<and>
   normalizeEmail (Some ''a@x.com'') = normalizeEmail (Some ''A@x.com'') \<and>
   \<not> distinct (map (\<lambda>v. normalizeEmail (Some v)) [''a@x.com'', ''A@x.com''])"
proof -
  have n: "normalizeEmail (Some ''a@x.com'') = normalizeEmail (Some ''A@x.com'')"
    by code_simp
  show ?thesis
    using n legacyStore_merge by simp
qed

section \<open>Validation\<close>

text \<open>
  Claim C8. When email and phone number are both absent or empty after normalization,
  \<open>identifyContact\<close> fails with the invalid-input error; no transaction attempt is made
  (\<open>attempts = 0\<close>), nothing is retried (\<open>delays = []\<close>) and the store is as it was.
\<close>

theorem C8_invalid_input_rejected:
  assumes "normalizeEmail (email_in input) = None" and "normalizePhone (phoneNumber_in input) = None"
  shows "identifyContact env s input = \<lparr>result = Inl InvalidInput, store = s, delays = [], attempts = 0\<rparr>"
  using assms by (simp add: identifyContact_def validateInput_def)

text \<open>The two inputs that the specification names: both fields empty, and both omitted.\<close>

theorem C8_invalid_input_rejected_witness:
  "normalizeEmail (email_in \<lparr>email_in = Some '''', phoneNumber_in = Some ''''\<rparr>) = None \<and>
   normalizePhone (phoneNumber_in \<lparr>email_in = Some '''', phoneNumber_in = Some ''''\<rparr>) = None \<and>
   identifyContact alwaysConflicts emptyStore \<lparr>email_in = Some '''', phoneNumber_in = Some ''''\<rparr>
     = \<lparr>result = Inl InvalidInput, store = emptyStore, delays = [], attempts = 0\<rparr> \<and>
   identifyContact alwaysConflicts emptyStore \<lparr>email_in = None, phoneNumber_in = None\<rparr>
     = \<lparr>result = Inl InvalidInput, store = emptyStore, delays = [], attempts = 0\<rparr>"
proof -
  have e: "normalizeEmail (email_in \<lparr>email_in = Some '''', phoneNumber_in = Some ''''\<rparr>) = None"
    by code_simp
  have p: "normalizePhone (phoneNumber_in \<lparr>email_in = Some '''', phoneNumber_in = Some ''''\<rparr>) = None"
    by (simp add: normalizePhone_def orUndefined_def trim_def)
  have e': "normalizeEmail (email_in \<lparr>email_in = None, phoneNumber_in = None\<rparr>) = None"
    by (simp add: normalizeEmail_def)
  have p': "normalizePhone (phoneNumber_in \<lparr>email_in = None, phoneNumber_in = None\<rparr>) = None"
    by (simp add: normalizePhone_def)
  show ?thesis
    using e p C8_invalid_input_rejected[OF e p, of alwaysConflicts emptyStore]
      C8_invalid_input_rejected[OF e' p', of alwaysConflicts emptyStore]
    by simp
qed

section \<open>Retry policy\<close>

text \<open>
  Claim C9. Let attempt \<open>k\<close> (at most 3) be the first one that does not end in a
  serialization conflict, or the third one. Every attempt before it is followed by a
  delay of 20 ms times its number and a fresh run of the same transaction on the same
  store. Attempt \<open>k\<close> decides the call: its result is returned when it commits, and its
  error reaches the caller otherwise, so a conflict surfaces after three attempts and any
  other failure surfaces at once, with no further attempt.
\<close>

theorem C9_retry_policy:
  assumes valid: "validateInput input = None"
    and k: "1 \<le> k" "k \<le> 3"
    and before: "\<forall>i. 1 \<le> i \<and> i < k \<longrightarrow> transaction env i s input = Inl (KnownRequestError ''P2034'')"
    and last: "transaction env k s input \<noteq> Inl (KnownRequestError ''P2034'') \<or> k = 3"
  shows "identifyContact env s input =
     (case transaction env k s input of
        Inr (s', r) \<Rightarrow> \<lparr>result = Inr r, store = s', delays = map (\<lambda>i. 20 * i) [1..<k], attempts = k\<rparr>
      | Inl err \<Rightarrow> \<lparr>result = Inl err, store = s, delays = map (\<lambda>i. 20 * i) [1..<k], attempts = k\<rparr>)"
proof -
  let ?c = "KnownRequestError ''P2034''"
  let ?fin = "\<lambda>k slept. (case transaction env k s input of
        Inr (s', r) \<Rightarrow> \<lparr>result = Inr r, store = s', delays = slept, attempts = k\<rparr>
      | Inl err \<Rightarrow> \<lparr>result = Inl err, store = s, delays = slept, attempts = k\<rparr>)"
  have stop: "retryLoop env s input j slept = ?fin j slept"
    if "j \<le> 3" and "transaction env j s input \<noteq> Inl ?c \<or> j = 3" for j slept
    using that
    by (subst retryLoop.simps)
      (auto simp: MAX_SERIALIZABLE_RETRIES_def isRetryableConflict_def split: sum.splits)
  have continue: "retryLoop env s input j slept = retryLoop env s input (j + 1) (slept @ [20 * j])"
    if "j < 3" and "transaction env j s input = Inl ?c" for j slept
    using that
    by (subst retryLoop.simps)
      (simp add: MAX_SERIALIZABLE_RETRIES_def isRetryableConflict_def)
  have start: "identifyContact env s input = retryLoop env s input 1 []"
    using valid by (simp add: identifyContact_def)
  consider "k = 1" | "k = 2" | "k = 3" using k by linarith
  then show ?thesis
  proof cases
    case 1
    have "retryLoop env s input 1 [] = ?fin 1 []"
      using last 1 by (intro stop) auto
    then show ?thesis using start 1 by (simp split: sum.splits)
  next
    case 2
    have t1: "transaction env 1 s input = Inl ?c"
      using before 2 by simp
    have "retryLoop env s input 1 [] = retryLoop env s input (1 + 1) ([] @ [20 * 1])"
      using t1 by (intro continue) auto
    also have "\<dots> = retryLoop env s input 2 [20]" by (simp add: numeral_2_eq_2)
    also have "\<dots> = ?fin 2 [20]"
      using last 2 by (intro stop) auto
    finally show ?thesis using start 2 by (simp add: upt_rec split: sum.splits)
  next
    case 3
    have t1: "transaction env 1 s input = Inl ?c"
      using before 3 by simp
    have t2: "transaction env 2 s input = Inl ?c"
      using before 3 by simp
    have "retryLoop env s input 1 [] = retryLoop env s input (1 + 1) ([] @ [20 * 1])"
      using t1 by (intro continue) auto
    also have "\<dots> = retryLoop env s input 2 [20]" by (simp add: numeral_2_eq_2)
    also have "\<dots> = retryLoop env s input (2 + 1) ([20] @ [20 * 2])"
      using t2 by (intro continue) auto
    also have "\<dots> = retryLoop env s input 3 [20, 40]" by (simp add: numeral_3_eq_3 numeral_2_eq_2)
    also have "\<dots> = ?fin 3 [20, 40]"
      by (intro stop) auto
    finally show ?thesis using start 3 by (simp add: upt_rec split: sum.splits)
  qed
qed

theorem C9_retry_policy_witness:
  "identifyContact alwaysConflicts emptyStore \<lparr>email_in = Some ''a@x.com'', phoneNumber_in = None\<rparr>
     = \<lparr>result = Inl (KnownRequestError ''P2034''), store = emptyStore, delays = [20, 40], attempts = 3\<rparr> \<and>
   identifyContact alwaysFails emptyStore \<lparr>email_in = Some ''a@x.com'', phoneNumber_in = None\<rparr>
     = \<lparr>result = Inl OtherStoreError, store = emptyStore, delays = [], attempts = 1\<rparr>"
proof -
  let ?input = "\<lparr>email_in = Some ''a@x.com'', phoneNumber_in = None\<rparr>"
  have v: "validateInput ?input = None"
    by code_simp
  have t: "transaction alwaysConflicts i emptyStore ?input = Inl (KnownRequestError ''P2034'')" for i
    by (simp add: transaction_def alwaysConflicts_def)
  have f: "transaction alwaysFails i emptyStore ?input = Inl OtherStoreError" for i
    by (simp add: transaction_def alwaysFails_def)
  have u: "[1..<3] = [1::nat, 2]" by (simp add: upt_rec)
  have a: "identifyContact alwaysConflicts emptyStore ?input
     = \<lparr>result = Inl (KnownRequestError ''P2034''), store = emptyStore, delays = [20, 40], attempts = 3\<rparr>"
    using C9_retry_policy[of ?input 3 alwaysConflicts emptyStore] v t u by simp
  have b: "identifyContact alwaysFails emptyStore ?input
     = \<lparr>result = Inl OtherStoreError, store = emptyStore, delays = [], attempts = 1\<rparr>"
    using C9_retry_policy[of ?input 1 alwaysFails emptyStore] v f by simp
  show ?thesis using a b by simp
qed

section \<open>Claim C10: which rows a call touches\<close>





end
